theory Spec2Isabelle
  imports Main "HOL-Library.Sublist"
begin

section \<open>Byte strings and the search primitives of the byte view\<close>

text \<open>
  The carver reads its image through \<^verbatim>\<open>mmap\<close> and its carved blobs as \<^verbatim>\<open>bytes\<close>; both are
  sequences of bytes with the same \<^verbatim>\<open>find\<close>, \<^verbatim>\<open>rfind\<close> and slicing. A byte is a \<^typ>\<open>char\<close>
  (256 values), a view is a list of them. Offsets, window spans and size limits are byte
  counts and never negative in the program (headers come from \<^verbatim>\<open>find\<close>, limits from
  \<^verbatim>\<open>parse_size\<close>), so they are natural numbers; the sentinel \<^verbatim>\<open>-1\<close> of the source is
  \<^const>\<open>None\<close>. Differences of offsets are taken in \<^typ>\<open>int\<close>, as Python does.
\<close>

type_synonym bytes = "char list"

text \<open>\<^verbatim>\<open>s[a:b]\<close> for non-negative \<^verbatim>\<open>a\<close>, \<^verbatim>\<open>b\<close>: both ends are cut to the length.\<close>

definition py_slice :: "bytes \<Rightarrow> nat \<Rightarrow> nat \<Rightarrow> bytes" where
  "py_slice s a b = drop a (take b s)"

text \<open>\<^verbatim>\<open>s[-n:]\<close>: the last \<^verbatim>\<open>n\<close> bytes, all of \<^verbatim>\<open>s\<close> when it is shorter.\<close>

definition py_last_bytes :: "bytes \<Rightarrow> nat \<Rightarrow> bytes" where
  "py_last_bytes s n = drop (length s - n) s"

text \<open>Lowest and highest index at which \<open>sub\<close> occurs in \<open>s\<close>.\<close>

primrec find_first :: "bytes \<Rightarrow> bytes \<Rightarrow> nat option" where
  "find_first sub [] = (if sub = [] then Some 0 else None)"
| "find_first sub (x # xs) =
     (if prefix sub (x # xs) then Some 0 else map_option Suc (find_first sub xs))"

primrec find_last :: "bytes \<Rightarrow> bytes \<Rightarrow> nat option" where
  "find_last sub [] = (if sub = [] then Some 0 else None)"
| "find_last sub (x # xs) =
     (case find_last sub xs of
        Some i \<Rightarrow> Some (Suc i)
      | None \<Rightarrow> if prefix sub (x # xs) then Some 0 else None)"

text \<open>
  \<^verbatim>\<open>s.find(sub, start, end)\<close>: the lowest index \<open>i\<close> with \<open>start \<le> i\<close> and
  \<open>i + len(sub) \<le> min(end, len(s))\<close> where \<open>sub\<close> occurs, as an index into \<open>s\<close>;
  nothing when the range is empty. \<^verbatim>\<open>s.find(sub, start)\<close> is the call with
  \<open>end = len(s)\<close>.
\<close>

definition py_find :: "bytes \<Rightarrow> bytes \<Rightarrow> nat \<Rightarrow> nat \<Rightarrow> nat option" where
  "py_find s sub start end_off =
     (if min end_off (length s) < start then None
      else map_option (\<lambda>i. start + i) (find_first sub (py_slice s start end_off)))"

text \<open>\<^verbatim>\<open>s.rfind(sub)\<close> over the whole of \<open>s\<close>, and \<^verbatim>\<open>sub in s\<close>.\<close>

definition py_rfind :: "bytes \<Rightarrow> bytes \<Rightarrow> nat option" where
  "py_rfind s sub = find_last sub s"

definition py_in :: "bytes \<Rightarrow> bytes \<Rightarrow> bool" where
  "py_in sub s = (find_first sub s \<noteq> None)"

text \<open>Little-endian unsigned integer of a byte string (\<^verbatim>\<open>H\<close> and \<^verbatim>\<open>I\<close> of \<^verbatim>\<open>struct\<close>).\<close>

primrec le_uint :: "bytes \<Rightarrow> nat" where
  "le_uint [] = 0"
| "le_uint (c # cs) = of_char c + 256 * le_uint cs"

section \<open>Format plugins\<close>

datatype plugin = JPEGPlugin | PDFPlugin | ZIPPlugin

fun fmt :: "plugin \<Rightarrow> string" where
  "fmt JPEGPlugin = ''jpeg''"
| "fmt PDFPlugin = ''pdf''"
| "fmt ZIPPlugin = ''zip''"

definition FORMAT_PLUGINS :: "string \<Rightarrow> plugin option" where
  "FORMAT_PLUGINS f =
     (if f = ''jpeg'' then Some JPEGPlugin
      else if f = ''pdf'' then Some PDFPlugin
      else if f = ''zip'' then Some ZIPPlugin
      else None)"

subsection \<open>JPEG\<close>

definition SOI :: bytes where "SOI = [CHR 0xFF, CHR 0xD8]"
definition EOI :: bytes where "EOI = [CHR 0xFF, CHR 0xD9]"
definition SOS :: bytes where "SOS = [CHR 0xFF, CHR 0xDA]"

definition JPEG_find_footer :: "bytes \<Rightarrow> nat \<Rightarrow> nat \<Rightarrow> nat option" where
  "JPEG_find_footer buf h_off max_scan =
     (let start = h_off + 2;
          end_search = min (length buf) (h_off + max_scan);
          eoi = py_find buf EOI start end_search
      in case eoi of Some e \<Rightarrow> Some (e + 2) | None \<Rightarrow> None)"

definition JPEG_validate :: "bytes \<Rightarrow> bool" where
  "JPEG_validate data =
     (if \<not> (prefix SOI data \<and> suffix EOI data) then False
      else py_in SOS data)"

definition JPEG_fragmented_try_bridge :: "bytes \<Rightarrow> nat \<Rightarrow> nat \<Rightarrow> nat \<Rightarrow> nat option" where
  "JPEG_fragmented_try_bridge buf h_off max_span chunk_size =
     (let end_search = min (length buf) (h_off + max_span);
          scan = py_slice buf h_off end_search;
          pos = py_find scan EOI 0 (length scan)
      in case pos of Some p \<Rightarrow> Some (h_off + p + 2) | None \<Rightarrow> None)"

subsection \<open>PDF\<close>

definition PDF_HEADER :: bytes where "PDF_HEADER = ''%PDF-''"
definition PDF_EOF :: bytes where "PDF_EOF = ''%%EOF''"
definition STARTXREF :: bytes where "STARTXREF = ''startxref''"

definition PDF_find_footer :: "bytes \<Rightarrow> nat \<Rightarrow> nat \<Rightarrow> nat option" where
  "PDF_find_footer buf h_off max_scan =
     (let end_search = min (length buf) (h_off + max_scan);
          window = py_slice buf h_off end_search;
          last = py_rfind window PDF_EOF
      in case last of None \<Rightarrow> None
         | Some l \<Rightarrow> Some (h_off + l + length PDF_EOF))"

text \<open>
  The pieces of the \<^verbatim>\<open>startxref\<close> inspection: \<^verbatim>\<open>bytes.splitlines()\<close> (line ends
  \<^verbatim>\<open>\n\<close>, \<^verbatim>\<open>\r\<close>, \<^verbatim>\<open>\r\n\<close>; no empty last line), \<^verbatim>\<open>bytes.strip()\<close> (ASCII white space) and
  \<^verbatim>\<open>int(bytes)\<close> (a sign, then decimal digits with single underscores between digits). The
  two exceptions the \<^verbatim>\<open>try\<close> block can raise are values.
\<close>

datatype py_error = IndexError | ValueError

fun splitlines :: "bytes \<Rightarrow> bytes \<Rightarrow> bytes list" where
  "splitlines cur [] = (if cur = [] then [] else [cur])"
| "splitlines cur (c # cs) =
     (if c = CHR 0x0A then cur # splitlines [] cs
      else if c = CHR 0x0D then
        (case cs of
           d # ds \<Rightarrow> if d = CHR 0x0A then cur # splitlines [] ds else cur # splitlines [] cs
         | [] \<Rightarrow> cur # splitlines [] cs)
      else splitlines (cur @ [c]) cs)"

definition is_space :: "char \<Rightarrow> bool" where
  "is_space c = (c \<in> set [CHR 0x20, CHR 0x09, CHR 0x0A, CHR 0x0D, CHR 0x0B, CHR 0x0C])"

definition strip :: "bytes \<Rightarrow> bytes" where
  "strip s = rev (dropWhile is_space (rev (dropWhile is_space s)))"

definition is_digit :: "char \<Rightarrow> bool" where
  "is_digit c = (48 \<le> (of_char c :: nat) \<and> (of_char c :: nat) \<le> 57)"

fun parse_digits :: "bytes \<Rightarrow> nat \<Rightarrow> bool \<Rightarrow> nat option" where
  "parse_digits [] acc last_digit = (if last_digit then Some acc else None)"
| "parse_digits (c # cs) acc last_digit =
     (if is_digit c then parse_digits cs (10 * acc + (of_char c - 48)) True
      else if c = CHR ''_'' \<and> last_digit then parse_digits cs acc False
      else None)"

definition py_int :: "bytes \<Rightarrow> py_error + int" where
  "py_int s =
     (let t = strip s;
          neg = (t \<noteq> [] \<and> hd t = CHR ''-'');
          body = (if t \<noteq> [] \<and> (hd t = CHR ''-'' \<or> hd t = CHR ''+'') then tl t else t)
      in case parse_digits body 0 False of
           None \<Rightarrow> Inl ValueError
         | Some n \<Rightarrow> Inr (if neg then - int n else int n))"

text \<open>The body of the \<^verbatim>\<open>try\<close>: the second line after the last \<^verbatim>\<open>startxref\<close>, as an integer.\<close>

definition PDF_startxref_pointer :: "bytes \<Rightarrow> py_error + int" where
  "PDF_startxref_pointer tail =
     (case py_rfind tail STARTXREF of
        None \<Rightarrow> Inl ValueError
      | Some idx \<Rightarrow>
          (case splitlines [] (drop idx tail) of
             l0 # l1 # ls \<Rightarrow> py_int (strip l1)
           | _ \<Rightarrow> Inl IndexError))"

definition PDF_validate :: "bytes \<Rightarrow> bool" where
  "PDF_validate data =
     (if \<not> prefix PDF_HEADER data then False
      else if \<not> py_in PDF_EOF data then False
      else let tail = py_last_bytes data 2048
           in if py_in STARTXREF tail then
                (case PDF_startxref_pointer tail of
                   Inr n \<Rightarrow> True
                 | Inl e \<Rightarrow> True)
              else True)"

definition PDF_fragmented_try_bridge :: "bytes \<Rightarrow> nat \<Rightarrow> nat \<Rightarrow> nat \<Rightarrow> nat option" where
  "PDF_fragmented_try_bridge buf h_off max_span chunk_size =
     (let end_search = min (length buf) (h_off + max_span);
          window = py_slice buf h_off end_search;
          pos = py_find window PDF_EOF 0 (length window)
      in case pos of Some p \<Rightarrow> Some (h_off + p + length PDF_EOF) | None \<Rightarrow> None)"

subsection \<open>ZIP\<close>

definition LFH :: bytes where "LFH = [CHR ''P'', CHR ''K'', CHR 0x03, CHR 0x04]"
definition EOCD :: bytes where "EOCD = [CHR ''P'', CHR ''K'', CHR 0x05, CHR 0x06]"
definition EOCD64_LOC :: bytes where "EOCD64_LOC = [CHR ''P'', CHR ''K'', CHR 0x06, CHR 0x07]"
definition EOCD64 :: bytes where "EOCD64 = [CHR ''P'', CHR ''K'', CHR 0x06, CHR 0x06]"

text \<open>
  \<^verbatim>\<open>struct.unpack("<4sHHHHIIH", view)\<close>: 22 bytes exactly, else \<^verbatim>\<open>struct.error\<close>. The
  fields are the signature, four 16-bit numbers, two 32-bit numbers and the 16-bit
  comment length, all little-endian.
\<close>

record eocd_fields =
  signature :: bytes
  disk_no :: nat
  cd_disk :: nat
  entries_disk :: nat
  entries_total :: nat
  cd_size :: nat
  cd_offset :: nat
  comment_length :: nat

definition unpack_eocd :: "bytes \<Rightarrow> eocd_fields option" where
  "unpack_eocd view =
     (if length view \<noteq> 22 then None
      else Some \<lparr> signature = py_slice view 0 4,
                  disk_no = le_uint (py_slice view 4 6),
                  cd_disk = le_uint (py_slice view 6 8),
                  entries_disk = le_uint (py_slice view 8 10),
                  entries_total = le_uint (py_slice view 10 12),
                  cd_size = le_uint (py_slice view 12 16),
                  cd_offset = le_uint (py_slice view 16 20),
                  comment_length = le_uint (py_slice view 20 22) \<rparr>)"

definition ZIP_parse_eocd_end :: "bytes \<Rightarrow> nat \<Rightarrow> nat \<Rightarrow> nat" where
  "ZIP_parse_eocd_end buf eocd_off_abs end_search_abs =
     (if eocd_off_abs + 22 > end_search_abs then eocd_off_abs + 22
      else let view = py_slice buf eocd_off_abs (eocd_off_abs + 22)
           in case unpack_eocd view of
                Some fields' \<Rightarrow>
                  (let comlen = comment_length fields';
                       end_off = eocd_off_abs + 22 + comlen
                   in min end_off (length buf))
              | None \<Rightarrow> eocd_off_abs + 22)"

definition ZIP_find_footer :: "bytes \<Rightarrow> nat \<Rightarrow> nat \<Rightarrow> nat option" where
  "ZIP_find_footer buf h_off max_scan =
     (let end_search = min (length buf) (h_off + max_scan);
          window = py_slice buf h_off end_search;
          pos64loc = py_rfind window EOCD64_LOC;
          pos64 = py_rfind window EOCD64;
          poseocd = py_rfind window EOCD
      in if pos64loc \<noteq> None \<and> pos64 \<noteq> None then
           (if poseocd \<noteq> None \<and> the poseocd > the pos64
            then Some (h_off + the poseocd + 22)
            else Some (h_off + the pos64 + 56))
         else if poseocd \<noteq> None then
           (let abs_pos = h_off + the poseocd;
                end_off = ZIP_parse_eocd_end buf abs_pos end_search
            in Some end_off)
         else None)"

definition ZIP_validate :: "bytes \<Rightarrow> bool" where
  "ZIP_validate data =
     (py_in LFH data \<and> (py_in EOCD data \<or> py_in EOCD64 data \<or> py_in EOCD64_LOC data))"

definition ZIP_fragmented_try_bridge :: "bytes \<Rightarrow> nat \<Rightarrow> nat \<Rightarrow> nat \<Rightarrow> nat option" where
  "ZIP_fragmented_try_bridge buf h_off max_span chunk_size =
     (let end_search = min (length buf) (h_off + max_span);
          window = py_slice buf h_off end_search
      in case py_find window EOCD 0 (length window) of
           Some pos \<Rightarrow> Some (ZIP_parse_eocd_end buf (h_off + pos) end_search)
         | None \<Rightarrow>
             (case py_find window EOCD64_LOC 0 (length window) of
                Some pos \<Rightarrow> Some (h_off + pos + length EOCD64_LOC)
              | None \<Rightarrow>
                  (case py_find window EOCD64 0 (length window) of
                     Some pos \<Rightarrow> Some (h_off + pos + length EOCD64)
                   | None \<Rightarrow> None)))"

subsection \<open>Dispatch on the plugin\<close>

fun headers :: "plugin \<Rightarrow> bytes list" where
  "headers JPEGPlugin = [SOI]"
| "headers PDFPlugin = [PDF_HEADER]"
| "headers ZIPPlugin = [LFH]"

fun find_footer :: "plugin \<Rightarrow> bytes \<Rightarrow> nat \<Rightarrow> nat \<Rightarrow> nat option" where
  "find_footer JPEGPlugin = JPEG_find_footer"
| "find_footer PDFPlugin = PDF_find_footer"
| "find_footer ZIPPlugin = ZIP_find_footer"

fun validate :: "plugin \<Rightarrow> bytes \<Rightarrow> bool" where
  "validate JPEGPlugin = JPEG_validate"
| "validate PDFPlugin = PDF_validate"
| "validate ZIPPlugin = ZIP_validate"

fun fragmented_try_bridge :: "plugin \<Rightarrow> bytes \<Rightarrow> nat \<Rightarrow> nat \<Rightarrow> nat \<Rightarrow> nat option" where
  "fragmented_try_bridge JPEGPlugin = JPEG_fragmented_try_bridge"
| "fragmented_try_bridge PDFPlugin = PDF_fragmented_try_bridge"
| "fragmented_try_bridge ZIPPlugin = ZIP_fragmented_try_bridge"

text \<open>
  The two loops of the scanner below terminate because a header that \<^verbatim>\<open>find\<close> returns
  lies at or after the cursor and inside the view. The facts about \<^const>\<open>py_find\<close> that their
  termination proofs use come first.
\<close>

subsection \<open>What a successful search returns\<close>

lemma find_first_Some:
  "find_first sub s = Some i \<Longrightarrow> i + length sub \<le> length s \<and> prefix sub (drop i s)"
proof (induction s arbitrary: i)
  case Nil
  then show ?case by (simp split: if_splits)
next
  case (Cons x xs)
  show ?case
  proof (cases "prefix sub (x # xs)")
    case True
    with Cons.prems show ?thesis by (auto dest: prefix_length_le)
  next
    case False
    with Cons.prems obtain j where "find_first sub xs = Some j" "i = Suc j" by auto
    with Cons.IH [of j] show ?thesis by simp
  qed
qed

lemma py_find_Some:
  assumes "py_find s sub a b = Some h"
  shows "a \<le> h" and "h + length sub \<le> min b (length s)"
proof -
  from assms have ab: "\<not> min b (length s) < a"
    by (cases "min b (length s) < a") (simp_all add: py_find_def)
  from assms ab obtain i where i: "find_first sub (py_slice s a b) = Some i" and h: "h = a + i"
    by (auto simp: py_find_def)
  from find_first_Some [OF i] have "i + length sub \<le> length (py_slice s a b)" by simp
  then have "i + length sub \<le> min b (length s) - a" by (simp add: py_slice_def min.commute)
  with h ab show "a \<le> h" and "h + length sub \<le> min b (length s)" by arith+
qed

lemma hd_headers_nonempty: "hd (headers p) \<noteq> []"
  by (cases p) (simp_all add: SOI_def PDF_HEADER_def LFH_def)

lemma py_find_header:
  assumes "py_find s (hd (headers p)) a (length s) = Some h"
  shows "a \<le> h \<and> h < length s"
proof -
  from hd_headers_nonempty [of p] have "length (hd (headers p)) \<noteq> 0" by simp
  with py_find_Some [OF assms] show ?thesis by linarith
qed

section \<open>Carve records, options and the scanner\<close>

text \<open>
  \<^verbatim>\<open>CarveRecord\<close>, \<^verbatim>\<open>CarveOptions\<close> and the fields of \<^verbatim>\<open>Carver\<close> that the scan reads.
  The fields of a record carry the prefix \<open>r_\<close>. \<open>r_size\<close> is an integer, the
  difference \<^verbatim>\<open>end - h\<close> as Python computes it. \<^verbatim>\<open>scan_windows\<close> is a dictionary from
  format names to spans.
\<close>

record CarveRecord =
  r_fmt :: string
  r_start :: nat
  r_end :: nat
  r_size :: int
  r_out_path :: string
  r_validated :: bool
  r_embedded_parent :: "string option"
  r_notes :: "string option"

record CarveOptions =
  out_dir :: string
  formats :: "string list"
  max_size :: nat
  embedded_depth :: int
  fragmented :: bool
  chunk_size :: nat
  scan_windows :: "string \<Rightarrow> nat option"

record Carver =
  opts :: CarveOptions
  plugins :: "plugin list"

text \<open>
  \<^verbatim>\<open>Carver.__init__\<close> looks every listed format up in \<^verbatim>\<open>FORMAT_PLUGINS\<close>, in the order
  of the list and once per entry; an unknown name raises \<^verbatim>\<open>KeyError\<close>.
\<close>

datatype key_error = KeyError string

fun lookup_plugins :: "string list \<Rightarrow> key_error + plugin list" where
  "lookup_plugins [] = Inr []"
| "lookup_plugins (f # fs) =
     (case FORMAT_PLUGINS f of
        None \<Rightarrow> Inl (KeyError f)
      | Some p \<Rightarrow> (case lookup_plugins fs of Inl e \<Rightarrow> Inl e | Inr ps \<Rightarrow> Inr (p # ps)))"

definition Carver_init :: "CarveOptions \<Rightarrow> key_error + Carver" where
  "Carver_init o' =
     (case lookup_plugins (formats o') of
        Inl e \<Rightarrow> Inl e
      | Inr ps \<Rightarrow> Inr \<lparr> opts = o', plugins = ps \<rparr>)"

text \<open>
  What a scan changes: the list \<^verbatim>\<open>self.records\<close>, the files written by
  \<^verbatim>\<open>_emit_file\<close> (each write with its path and bytes, in order) and the calls of
  \<^verbatim>\<open>plugin.validate\<close> (each call with its plugin and argument, in order). Creating the
  output directories, the progress messages and the index files are left out.
\<close>

record carve_state =
  records :: "CarveRecord list"
  written :: "(string \<times> bytes) list"
  validate_calls :: "(plugin \<times> bytes) list"

text \<open>
  Names: \<^verbatim>\<open>f"{fmt}_{h_off:012x}"\<close> at top level, \<^verbatim>\<open>f"{parent_name}__{fmt}_{h:08x}"\<close>
  for embedded carves; the path is \<^verbatim>\<open>out_dir / "carved" / f"{name}{ext}"\<close>.
\<close>

fun hex_of_nat :: "nat \<Rightarrow> string" where
  "hex_of_nat n =
     (if n < 16 then [''0123456789abcdef'' ! n]
      else hex_of_nat (n div 16) @ [''0123456789abcdef'' ! (n mod 16)])"

definition hex_padded :: "nat \<Rightarrow> nat \<Rightarrow> string" where
  "hex_padded width n = replicate (width - length (hex_of_nat n)) (CHR ''0'') @ hex_of_nat n"

definition candidate_name :: "plugin \<Rightarrow> bytes \<Rightarrow> nat \<Rightarrow> string" where
  "candidate_name p buf h_off = fmt p @ ''_'' @ hex_padded 12 h_off"

definition scan_window :: "Carver \<Rightarrow> plugin \<Rightarrow> nat" where
  "scan_window c p =
     (case scan_windows (opts c) (fmt p) of Some w \<Rightarrow> w | None \<Rightarrow> max_size (opts c))"

definition file_ext :: "string \<Rightarrow> string" where
  "file_ext f =
     (if f = ''jpeg'' then ''.jpg'' else if f = ''pdf'' then ''.pdf''
      else if f = ''zip'' then ''.zip'' else ''.bin'')"

definition emit_file :: "Carver \<Rightarrow> string \<Rightarrow> string \<Rightarrow> bytes \<Rightarrow> carve_state \<Rightarrow> string \<times> carve_state" where
  "emit_file c f name data st =
     (let out_path = out_dir (opts c) @ ''/carved/'' @ name @ file_ext f
      in (out_path, st \<lparr> written := written st @ [(out_path, data)] \<rparr>))"

definition call_validate :: "plugin \<Rightarrow> bytes \<Rightarrow> carve_state \<Rightarrow> bool \<times> carve_state" where
  "call_validate p data st =
     (validate p data, st \<lparr> validate_calls := validate_calls st @ [(p, data)] \<rparr>)"

text \<open>
  The body of the \<^verbatim>\<open>if\<close> in \<^verbatim>\<open>_scan_memory_for_embedded\<close>: slice, validate, write,
  append the record.
\<close>

definition embedded_carve :: "Carver \<Rightarrow> plugin \<Rightarrow> bytes \<Rightarrow> string \<Rightarrow> nat \<Rightarrow> nat \<Rightarrow> carve_state \<Rightarrow> carve_state" where
  "embedded_carve c p data parent_name h end_off st =
     (let sub = py_slice data h end_off;
          (valid, st1) = call_validate p sub st;
          name = parent_name @ ''__'' @ fmt p @ ''_'' @ hex_padded 8 h;
          (out_path, st2) = emit_file c (fmt p) name sub st1;
          rec = \<lparr> r_fmt = fmt p, r_start = h, r_end = end_off, r_size = int end_off - int h,
                  r_out_path = out_path, r_validated = valid,
                  r_embedded_parent = Some parent_name, r_notes = Some ''embedded'' \<rparr>
      in st2 \<lparr> records := records st2 @ [rec] \<rparr>)"

text \<open>
  The \<^verbatim>\<open>while True\<close> loop of \<^verbatim>\<open>_scan_memory_for_embedded\<close> for one plugin, from the
  cursor \<open>off\<close>. Only \<^verbatim>\<open>find_footer\<close> is called; \<^verbatim>\<open>depth\<close> is not used.
\<close>

function scan_embedded_plugin ::
  "Carver \<Rightarrow> plugin \<Rightarrow> bytes \<Rightarrow> string \<Rightarrow> nat \<Rightarrow> carve_state \<Rightarrow> carve_state" where
  "scan_embedded_plugin c p data parent_name off st =
     (case py_find data (hd (headers p)) off (length data) of
        None \<Rightarrow> st
      | Some h \<Rightarrow>
          (case find_footer p data h (scan_window c p) of
             Some end_off \<Rightarrow>
               if 0 < int end_off - int h \<and> int end_off - int h \<le> int (max_size (opts c))
               then scan_embedded_plugin c p data parent_name end_off
                      (embedded_carve c p data parent_name h end_off st)
               else scan_embedded_plugin c p data parent_name (h + 1) st
           | None \<Rightarrow> scan_embedded_plugin c p data parent_name (h + 1) st))"
  by pat_completeness auto
termination
  by (relation "measure (\<lambda>(c, p, data, parent_name, off, st). length data - off)")
     (auto dest!: py_find_header)

declare scan_embedded_plugin.simps [simp del]

text \<open>The \<^verbatim>\<open>for plugin in self.plugins\<close> loop, skipping the format of the parent.\<close>

fun scan_memory_for_embedded_loop ::
  "Carver \<Rightarrow> plugin \<Rightarrow> bytes \<Rightarrow> string \<Rightarrow> plugin list \<Rightarrow> carve_state \<Rightarrow> carve_state" where
  "scan_memory_for_embedded_loop c parent_plugin data parent_name [] st = st"
| "scan_memory_for_embedded_loop c parent_plugin data parent_name (p # ps) st =
     (if fmt p = fmt parent_plugin
      then scan_memory_for_embedded_loop c parent_plugin data parent_name ps st
      else scan_memory_for_embedded_loop c parent_plugin data parent_name ps
             (scan_embedded_plugin c p data parent_name 0 st))"

definition scan_memory_for_embedded ::
  "Carver \<Rightarrow> plugin \<Rightarrow> bytes \<Rightarrow> int \<Rightarrow> string \<Rightarrow> carve_state \<Rightarrow> carve_state" where
  "scan_memory_for_embedded c parent_plugin data depth parent_name st =
     scan_memory_for_embedded_loop c parent_plugin data parent_name (plugins c) st"

text \<open>
  The body of \<^verbatim>\<open>if end != -1\<close> in \<^verbatim>\<open>_scan\<close> once the size check has passed: slice,
  validate, name, write, append the record, then scan the carved bytes for embedded files
  when \<^verbatim>\<open>embedded_depth > depth\<close>.
\<close>

definition top_carve ::
  "Carver \<Rightarrow> plugin \<Rightarrow> bytes \<Rightarrow> string option \<Rightarrow> int \<Rightarrow> nat \<Rightarrow> nat \<Rightarrow> bool \<Rightarrow> carve_state \<Rightarrow> carve_state" where
  "top_carve c p buf embedded_source depth h end_off used_fragment st =
     (let data = py_slice buf h end_off;
          (valid, st1) = call_validate p data st;
          name = candidate_name p buf h;
          (out_path, st2) = emit_file c (fmt p) name data st1;
          rec = \<lparr> r_fmt = fmt p, r_start = h, r_end = end_off, r_size = int end_off - int h,
                  r_out_path = out_path, r_validated = valid,
                  r_embedded_parent = embedded_source,
                  r_notes = (if used_fragment then Some ''fragmented-bridge'' else None) \<rparr>;
          st3 = st2 \<lparr> records := records st2 @ [rec] \<rparr>
      in if embedded_depth (opts c) > depth
         then scan_memory_for_embedded c p data (depth + 1) name st3
         else st3)"

text \<open>
  \<^verbatim>\<open>find_footer\<close>, then \<^verbatim>\<open>fragmented_try_bridge\<close> when it failed and
  \<^verbatim>\<open>opts.fragmented\<close> is set; the second component is \<^verbatim>\<open>used_fragment\<close>.
\<close>

definition locate_end :: "Carver \<Rightarrow> plugin \<Rightarrow> bytes \<Rightarrow> nat \<Rightarrow> nat option \<times> bool" where
  "locate_end c p buf h =
     (let end0 = find_footer p buf h (scan_window c p)
      in if end0 = None \<and> fragmented (opts c) then
           (let end1 = fragmented_try_bridge p buf h (scan_window c p) (chunk_size (opts c))
            in (end1, end1 \<noteq> None))
         else (end0, False))"

text \<open>
  The \<^verbatim>\<open>while off < total_len\<close> loop of \<^verbatim>\<open>_scan\<close> for one plugin. \<open>hd (headers p)\<close>
  is \<^verbatim>\<open>magic_list[0]\<close>; every plugin declares one header.
\<close>

function scan_plugin ::
  "Carver \<Rightarrow> plugin \<Rightarrow> bytes \<Rightarrow> string option \<Rightarrow> int \<Rightarrow> nat \<Rightarrow> carve_state \<Rightarrow> carve_state" where
  "scan_plugin c p buf embedded_source depth off st =
     (if off < length buf then
        (case py_find buf (hd (headers p)) off (length buf) of
           None \<Rightarrow> st
         | Some h \<Rightarrow>
             (case locate_end c p buf h of
                (Some end_off, used_fragment) \<Rightarrow>
                  if int end_off - int h \<le> 0 \<or> int end_off - int h > int (max_size (opts c))
                  then scan_plugin c p buf embedded_source depth (h + 1) st
                  else scan_plugin c p buf embedded_source depth end_off
                         (top_carve c p buf embedded_source depth h end_off used_fragment st)
              | (None, used_fragment) \<Rightarrow> scan_plugin c p buf embedded_source depth (h + 1) st))
      else st)"
  by pat_completeness auto
termination
  by (relation "measure (\<lambda>(c, p, buf, embedded_source, depth, off, st). length buf - off)")
     (auto dest!: py_find_header)

declare scan_plugin.simps [simp del]

text \<open>
  \<^verbatim>\<open>_scan\<close> runs the loop for every entry of \<^verbatim>\<open>self.plugins\<close> from cursor 0;
  \<^verbatim>\<open>run\<close> calls it on the whole image with no embedded source at depth 0, starting from
  no records.
\<close>

definition scan :: "Carver \<Rightarrow> bytes \<Rightarrow> string option \<Rightarrow> int \<Rightarrow> carve_state \<Rightarrow> carve_state" where
  "scan c buf embedded_source depth st =
     fold (\<lambda>p. scan_plugin c p buf embedded_source depth 0) (plugins c) st"

definition initial_state :: carve_state where
  "initial_state = \<lparr> records = [], written = [], validate_calls = [] \<rparr>"

definition run :: "Carver \<Rightarrow> bytes \<Rightarrow> carve_state" where
  "run c mm = scan c mm None 0 initial_state"

section \<open>Vocabulary of the specification\<close>

text \<open>
  \<open>sub\<close> occurs in \<open>s\<close> at index \<open>i\<close>; and a signature lies in the search window
  \<open>[h, h + max_scan)\<close>, cut to the view, at the offset \<open>p\<close> of the view.
\<close>

definition occurs_at :: "bytes \<Rightarrow> bytes \<Rightarrow> nat \<Rightarrow> bool" where
  "occurs_at sub s i = (i + length sub \<le> length s \<and> take (length sub) (drop i s) = sub)"

definition sig_in_window :: "bytes \<Rightarrow> bytes \<Rightarrow> nat \<Rightarrow> nat \<Rightarrow> nat \<Rightarrow> bool" where
  "sig_in_window sub buf h max_scan p =
     (h \<le> p \<and> p + length sub \<le> min (length buf) (h + max_scan) \<and>
      py_slice buf p (p + length sub) = sub)"

text \<open>
  What identifies a record in the examples; the top-level records of a plugin (its format,
  no embedded parent); two ranges \<open>[start, end)\<close> that share a byte; and a list of
  records whose ranges are pairwise disjoint.
\<close>

definition record_summary :: "CarveRecord \<Rightarrow> string \<times> nat \<times> nat \<times> string option \<times> string option" where
  "record_summary r = (r_fmt r, r_start r, r_end r, r_embedded_parent r, r_notes r)"

definition top_level_records :: "plugin \<Rightarrow> carve_state \<Rightarrow> CarveRecord list" where
  "top_level_records p st =
     filter (\<lambda>r. r_fmt r = fmt p \<and> r_embedded_parent r = None) (records st)"

definition overlap :: "CarveRecord \<Rightarrow> CarveRecord \<Rightarrow> bool" where
  "overlap r1 r2 = (r_start r1 < r_end r2 \<and> r_start r2 < r_end r1)"

definition non_overlapping :: "CarveRecord list \<Rightarrow> bool" where
  "non_overlapping rs = (\<forall>i j. i < j \<and> j < length rs \<longrightarrow> \<not> overlap (rs ! i) (rs ! j))"

definition ends_before :: "CarveRecord \<Rightarrow> CarveRecord \<Rightarrow> bool" where
  "ends_before r1 r2 = (r_end r1 \<le> r_start r2)"

text \<open>
  A record agrees with a write of the sink and a call of the validator: its size is
  positive, at most \<^verbatim>\<open>max_size\<close> and equal to \<^verbatim>\<open>end - start\<close>; its path is the path
  written; the validator was called by the plugin of the record on the bytes written, and
  the record stores its verdict. In a state, the records, the writes and the validator calls
  correspond one to one, in order.
\<close>

definition record_ok :: "Carver \<Rightarrow> CarveRecord \<Rightarrow> string \<times> bytes \<Rightarrow> plugin \<times> bytes \<Rightarrow> bool" where
  "record_ok c r w v =
     (0 < r_size r \<and> r_size r \<le> int (max_size (opts c)) \<and>
      r_size r = int (r_end r) - int (r_start r) \<and>
      r_out_path r = fst w \<and> snd v = snd w \<and> r_fmt r = fmt (fst v) \<and>
      r_validated r = validate (fst v) (snd w))"

definition records_match_emissions :: "Carver \<Rightarrow> carve_state \<Rightarrow> bool" where
  "records_match_emissions c st =
     (length (written st) = length (records st) \<and>
      length (validate_calls st) = length (records st) \<and>
      (\<forall>i < length (records st).
         record_ok c (records st ! i) (written st ! i) (validate_calls st ! i)))"

text \<open>
  The record and the state that \<^const>\<open>top_carve\<close> produces before it scans for embedded
  files.
\<close>

definition top_record :: "Carver \<Rightarrow> plugin \<Rightarrow> bytes \<Rightarrow> string option \<Rightarrow> nat \<Rightarrow> nat \<Rightarrow> bool \<Rightarrow> CarveRecord" where
  "top_record c p buf embedded_source h e used_fragment =
     \<lparr> r_fmt = fmt p, r_start = h, r_end = e, r_size = int e - int h,
       r_out_path = out_dir (opts c) @ ''/carved/'' @ candidate_name p buf h @ file_ext (fmt p),
       r_validated = validate p (py_slice buf h e),
       r_embedded_parent = embedded_source,
       r_notes = (if used_fragment then Some ''fragmented-bridge'' else None) \<rparr>"

definition top_emitted :: "Carver \<Rightarrow> plugin \<Rightarrow> bytes \<Rightarrow> string option \<Rightarrow> nat \<Rightarrow> nat \<Rightarrow> bool \<Rightarrow> carve_state \<Rightarrow> carve_state" where
  "top_emitted c p buf embedded_source h e used_fragment st =
     st \<lparr> validate_calls := validate_calls st @ [(p, py_slice buf h e)],
          written := written st @
            [(out_dir (opts c) @ ''/carved/'' @ candidate_name p buf h @ file_ext (fmt p),
              py_slice buf h e)],
          records := records st @ [top_record c p buf embedded_source h e used_fragment] \<rparr>"

text \<open>
  The same carver with another value of \<^verbatim>\<open>fragmented\<close>.
\<close>

definition set_fragmented :: "bool \<Rightarrow> Carver \<Rightarrow> Carver" where
  "set_fragmented fr c = c \<lparr> opts := (opts c) \<lparr> fragmented := fr \<rparr> \<rparr>"

text \<open>
  The deviations of an embedded record from the top-level record of the same carve: the
  name is \<^verbatim>\<open>{parent_name}__{format}_{offset:08x}\<close>, the parent is the name of the blob and
  the note is \<^verbatim>\<open>embedded\<close>. And the carver of a top-level scan of a blob without the
  fragmented bridge: the plugins other than the format of the parent, \<^verbatim>\<open>fragmented\<close> off
  and no embedded scan of what it carves.
\<close>

definition as_embedded :: "Carver \<Rightarrow> string \<Rightarrow> CarveRecord \<Rightarrow> CarveRecord" where
  "as_embedded c pn r =
     r \<lparr> r_out_path := out_dir (opts c) @ ''/carved/''
            @ (pn @ ''__'' @ r_fmt r @ ''_'' @ hex_padded 8 (r_start r)) @ file_ext (r_fmt r),
         r_embedded_parent := Some pn,
         r_notes := Some ''embedded'' \<rparr>"

definition blob_carver :: "Carver \<Rightarrow> plugin \<Rightarrow> Carver" where
  "blob_carver c parent =
     \<lparr> opts = (opts c) \<lparr> fragmented := False, embedded_depth := 0 \<rparr>,
       plugins = filter (\<lambda>p. fmt p \<noteq> fmt parent) (plugins c) \<rparr>"

text \<open>
  The same carver with another value of \<^verbatim>\<open>embedded_depth\<close>.
\<close>

definition set_embedded_depth :: "int \<Rightarrow> Carver \<Rightarrow> Carver" where
  "set_embedded_depth d c = c \<lparr> opts := (opts c) \<lparr> embedded_depth := d \<rparr> \<rparr>"

section \<open>Example inputs\<close>

text \<open>
  Small views and options on which the theorems below are evaluated: scan windows of 500
  bytes, the output directory \<^verbatim>\<open>out\<close>, the plugins in the order given.
\<close>

definition example_windows :: "string \<Rightarrow> nat option" where
  "example_windows = [''jpeg'' \<mapsto> 500, ''pdf'' \<mapsto> 500, ''zip'' \<mapsto> 500]"

definition example_opts :: "string list \<Rightarrow> nat \<Rightarrow> int \<Rightarrow> bool \<Rightarrow> CarveOptions" where
  "example_opts fs ms d fr =
     \<lparr> out_dir = ''out'', formats = fs, max_size = ms, embedded_depth = d,
       fragmented = fr, chunk_size = 4096, scan_windows = example_windows \<rparr>"

definition example_carver :: "plugin list \<Rightarrow> nat \<Rightarrow> int \<Rightarrow> bool \<Rightarrow> Carver" where
  "example_carver ps ms d fr = \<lparr> opts = example_opts (map fmt ps) ms d fr, plugins = ps \<rparr>"

definition pdf_two_eof :: bytes where
  "pdf_two_eof = ''%PDF-1.4 %%EOF update %%EOF tail''"

definition jpeg_at_3 :: bytes where
  "jpeg_at_3 = ''abc'' @ SOI @ SOS @ ''xy'' @ EOI @ ''z''"

definition zeros16 :: bytes where
  "zeros16 = [CHR 0x00, CHR 0x00, CHR 0x00, CHR 0x00, CHR 0x00, CHR 0x00, CHR 0x00, CHR 0x00,
              CHR 0x00, CHR 0x00, CHR 0x00, CHR 0x00, CHR 0x00, CHR 0x00, CHR 0x00, CHR 0x00]"

definition zip_with_comment :: bytes where
  "zip_with_comment = LFH @ EOCD @ zeros16 @ [CHR 0x07, CHR 0x00] @ ''foo.txt''"

definition zip64_with_comment :: bytes where
  "zip64_with_comment =
     LFH @ EOCD64 @ EOCD64_LOC @ EOCD @ zeros16 @ [CHR 0x07, CHR 0x00] @ ''foo.txt''"

definition truncated_zip :: bytes where
  "truncated_zip = LFH @ EOCD"

definition truncated_zip_record :: CarveRecord where
  "truncated_zip_record =
     \<lparr> r_fmt = ''zip'', r_start = 0, r_end = 26, r_size = 26,
       r_out_path = ''out/carved/zip_000000000000.zip'', r_validated = True,
       r_embedded_parent = None, r_notes = None \<rparr>"

definition nested_pdf :: bytes where
  "nested_pdf =
     PDF_HEADER @ LFH @ PDF_HEADER @ PDF_EOF @ EOCD @ zeros16 @ [CHR 0x00, CHR 0x00] @ PDF_EOF"

definition two_level_image :: bytes where
  "two_level_image =
     nested_pdf @ ''unrelated disk bytes'' @ EOCD @ zeros16 @ [CHR 0x00, CHR 0x00]"

definition locator_only :: bytes where
  "locator_only = PDF_HEADER @ LFH @ ''data'' @ EOCD64_LOC @ PDF_EOF"

definition tiny_jpeg :: bytes where
  "tiny_jpeg = SOI @ SOS @ EOI"

definition two_jpegs :: bytes where
  "two_jpegs = tiny_jpeg @ tiny_jpeg"

section \<open>Occurrences found by the search primitives\<close>

lemma occurs_at_Cons_Suc: "occurs_at sub (x # xs) (Suc i) = occurs_at sub xs i"
  by (simp add: occurs_at_def)

lemma occurs_at_0: "occurs_at sub s 0 = prefix sub s"
proof
  assume "occurs_at sub s 0"
  then have "take (length sub) s = sub" by (simp add: occurs_at_def)
  then show "prefix sub s" by (metis take_is_prefix)
next
  assume "prefix sub s"
  then obtain zs where "s = sub @ zs" by (auto simp: prefix_def)
  then show "occurs_at sub s 0" by (simp add: occurs_at_def)
qed

lemma occurs_at_Nil: "occurs_at sub [] i = (sub = [] \<and> i = 0)"
  by (auto simp: occurs_at_def)

lemma find_first_None: "find_first sub s = None \<Longrightarrow> \<not> occurs_at sub s i"
proof (induction s arbitrary: i)
  case Nil
  then show ?case by (simp add: occurs_at_Nil split: if_splits)
next
  case (Cons x xs)
  then show ?case
    by (cases i) (auto simp: occurs_at_0 occurs_at_Cons_Suc split: if_splits)
qed

lemma find_first_least:
  "find_first sub s = Some i \<Longrightarrow> occurs_at sub s i \<and> (\<forall>j. occurs_at sub s j \<longrightarrow> i \<le> j)"
proof (induction s arbitrary: i)
  case Nil
  then show ?case by (auto simp: occurs_at_def split: if_splits)
next
  case (Cons x xs)
  show ?case
  proof (cases "prefix sub (x # xs)")
    case True
    with Cons.prems show ?thesis by (simp add: occurs_at_0)
  next
    case False
    with Cons.prems obtain k where k: "find_first sub xs = Some k" "i = Suc k" by auto
    from Cons.IH [OF k(1)] have occ: "occurs_at sub xs k" and least: "\<And>j. occurs_at sub xs j \<Longrightarrow> k \<le> j"
      by auto
    have "i \<le> j" if "occurs_at sub (x # xs) j" for j
    proof (cases j)
      case 0
      with that False show ?thesis by (simp add: occurs_at_0)
    next
      case (Suc j')
      with that least [of j'] k(2) show ?thesis by (simp add: occurs_at_Cons_Suc)
    qed
    with occ k(2) show ?thesis by (simp add: occurs_at_Cons_Suc)
  qed
qed

lemma find_last_None: "find_last sub s = None \<Longrightarrow> \<not> occurs_at sub s i"
proof (induction s arbitrary: i)
  case Nil
  then show ?case by (auto simp: occurs_at_def split: if_splits)
next
  case (Cons x xs)
  then show ?case
    by (cases i) (auto simp: occurs_at_0 occurs_at_Cons_Suc split: if_splits option.splits)
qed

lemma find_last_greatest:
  "find_last sub s = Some i \<Longrightarrow> occurs_at sub s i \<and> (\<forall>j. occurs_at sub s j \<longrightarrow> j \<le> i)"
proof (induction s arbitrary: i)
  case Nil
  then show ?case by (auto simp: occurs_at_def split: if_splits)
next
  case (Cons x xs)
  show ?case
  proof (cases "find_last sub xs")
    case None
    with Cons.prems have i: "i = 0" and p: "prefix sub (x # xs)" by (auto split: if_splits)
    have "j \<le> i" if "occurs_at sub (x # xs) j" for j
    proof (cases j)
      case 0
      then show ?thesis by simp
    next
      case (Suc j')
      with that find_last_None [OF None, of j'] show ?thesis by (simp add: occurs_at_Cons_Suc)
    qed
    with i p show ?thesis by (simp add: occurs_at_0)
  next
    case (Some k)
    with Cons.prems have i: "i = Suc k" by simp
    from Cons.IH [OF Some] have occ: "occurs_at sub xs k" and great: "\<And>j. occurs_at sub xs j \<Longrightarrow> j \<le> k"
      by auto
    have "j \<le> i" if "occurs_at sub (x # xs) j" for j
    proof (cases j)
      case 0
      then show ?thesis by simp
    next
      case (Suc j')
      with that great [of j'] i show ?thesis by (simp add: occurs_at_Cons_Suc)
    qed
    with occ i show ?thesis by (simp add: occurs_at_Cons_Suc)
  qed
qed

lemma find_first_short: "length s < length sub \<Longrightarrow> find_first sub s = None"
proof (cases "find_first sub s")
  case None
  then show ?thesis .
next
  case (Some i)
  assume "length s < length sub"
  with find_first_Some [OF Some] show ?thesis by simp
qed

lemma occurs_at_slice:
  assumes "sub \<noteq> []"
  shows "occurs_at sub (py_slice s a b) i =
     (a + i + length sub \<le> min b (length s) \<and> occurs_at sub s (a + i))"
proof -
  from assms have n: "0 < length sub" by simp
  have len: "i + length sub \<le> length (py_slice s a b) \<longleftrightarrow> a + i + length sub \<le> min b (length s)"
  proof -
    have "length (py_slice s a b) = min b (length s) - a" by (simp add: py_slice_def min.commute)
    with n show ?thesis by linarith
  qed
  have tk: "take (length sub) (drop i (py_slice s a b)) = take (length sub) (drop (a + i) s)"
    if "a + i + length sub \<le> b"
    using that by (simp add: py_slice_def take_drop min_def add.commute add.left_commute)
  show ?thesis
    using len tk by (auto simp: occurs_at_def)
qed

lemma py_in_iff: "py_in sub s \<longleftrightarrow> (\<exists>pre post. s = pre @ sub @ post)"
proof
  assume "py_in sub s"
  then obtain i where "find_first sub s = Some i" by (auto simp: py_in_def)
  from find_first_least [OF this] have "occurs_at sub s i" by simp
  then have "take (length sub) (drop i s) = sub" by (simp add: occurs_at_def)
  then have "s = take i s @ sub @ drop (length sub) (drop i s)"
    by (metis append_take_drop_id)
  then show "\<exists>pre post. s = pre @ sub @ post" by blast
next
  assume "\<exists>pre post. s = pre @ sub @ post"
  then obtain pre post where s: "s = pre @ sub @ post" by blast
  then have "occurs_at sub s (length pre)" by (simp add: occurs_at_def)
  with find_first_None [of sub s "length pre"] show "py_in sub s"
    by (auto simp: py_in_def)
qed

lemma sig_in_window_occurs:
  assumes "sub \<noteq> []"
  shows "sig_in_window sub buf h w (h + l) =
    occurs_at sub (py_slice buf h (min (length buf) (h + w))) l"
proof -
  have "py_slice buf (h + l) (h + l + length sub) = take (length sub) (drop (h + l) buf)"
    by (simp add: py_slice_def take_drop add.commute)
  moreover have "min (min (length buf) (h + w)) (length buf) = min (length buf) (h + w)"
    by simp
  ultimately show ?thesis
    by (subst occurs_at_slice [OF assms]) (auto simp: sig_in_window_def occurs_at_def add.assoc)
qed

lemma py_rfind_window_None:
  assumes "sub \<noteq> []" and "py_rfind (py_slice buf h (min (length buf) (h + w))) sub = None"
  shows "\<not> sig_in_window sub buf h w p"
proof
  assume p: "sig_in_window sub buf h w p"
  then have "h \<le> p" by (simp add: sig_in_window_def)
  then have "p = h + (p - h)" by simp
  with p have "sig_in_window sub buf h w (h + (p - h))" by simp
  with sig_in_window_occurs [OF assms(1), of buf h w "p - h"]
  have "occurs_at sub (py_slice buf h (min (length buf) (h + w))) (p - h)" by blast
  with find_last_None assms(2) show False by (simp add: py_rfind_def)
qed

lemma py_rfind_window_Some:
  assumes "sub \<noteq> []" and "py_rfind (py_slice buf h (min (length buf) (h + w))) sub = Some l"
  shows "sig_in_window sub buf h w (h + l)"
    and "sig_in_window sub buf h w q \<Longrightarrow> q \<le> h + l"
proof -
  let ?win = "py_slice buf h (min (length buf) (h + w))"
  from assms(2) have fl: "find_last sub ?win = Some l" by (simp add: py_rfind_def)
  from find_last_greatest [OF fl] have occ: "occurs_at sub ?win l"
    and great: "\<And>j. occurs_at sub ?win j \<Longrightarrow> j \<le> l" by auto
  from occ sig_in_window_occurs [OF assms(1), of buf h w l]
  show "sig_in_window sub buf h w (h + l)" by blast
  assume q: "sig_in_window sub buf h w q"
  then have "h \<le> q" by (simp add: sig_in_window_def)
  then have "q = h + (q - h)" by simp
  with q have "sig_in_window sub buf h w (h + (q - h))" by simp
  with sig_in_window_occurs [OF assms(1), of buf h w "q - h"]
  have "occurs_at sub ?win (q - h)" by blast
  from great [OF this] \<open>h \<le> q\<close> show "q \<le> h + l" by simp
qed

lemma py_rfind_window_absent:
  assumes "sub \<noteq> []" and "\<forall>q. \<not> sig_in_window sub buf h w q"
  shows "py_rfind (py_slice buf h (min (length buf) (h + w))) sub = None"
proof (cases "py_rfind (py_slice buf h (min (length buf) (h + w))) sub")
  case None
  then show ?thesis .
next
  case (Some l)
  from py_rfind_window_Some(1) [OF assms(1) Some] assms(2) show ?thesis by blast
qed

lemma py_rfind_window_last:
  assumes "sub \<noteq> []" and "sig_in_window sub buf h w p"
    and "\<forall>q. sig_in_window sub buf h w q \<longrightarrow> q \<le> p"
  shows "py_rfind (py_slice buf h (min (length buf) (h + w))) sub = Some (p - h)"
proof (cases "py_rfind (py_slice buf h (min (length buf) (h + w))) sub")
  case None
  from py_rfind_window_None [OF assms(1) None] assms(2) show ?thesis by blast
next
  case (Some l)
  from py_rfind_window_Some [OF assms(1) Some] assms(2,3)
  have "h + l \<le> p" and "p \<le> h + l" by blast+
  with Some show ?thesis by simp
qed

section \<open>Footer locators and validators\<close>

subsection \<open>PDF\<close>

lemma PDF_EOF_nonempty: "PDF_EOF \<noteq> []"
  by (simp add: PDF_EOF_def)

text \<open>
  C5. For every view, header offset and window, \<^verbatim>\<open>PDFPlugin.find_footer\<close> returns the
  offset of the last \<^verbatim>\<open>%%EOF\<close> that lies in \<open>[h, h + max_scan)\<close>, cut to the view, plus 5:
  there is an occurrence \<open>p\<close> in the window with no occurrence after it, and the result is
  \<open>p + 5\<close>, so an earlier \<^verbatim>\<open>%%EOF\<close> is never the boundary. It returns nothing when
  \<^verbatim>\<open>%%EOF\<close> does not occur in the window.
\<close>

theorem PDF_find_footer_last_EOF:
  "(case find_footer PDFPlugin buf h max_scan of
      None \<Rightarrow> \<forall>p. \<not> sig_in_window PDF_EOF buf h max_scan p
    | Some e \<Rightarrow>
        \<exists>p. e = p + 5 \<and> sig_in_window PDF_EOF buf h max_scan p \<and>
            (\<forall>q. sig_in_window PDF_EOF buf h max_scan q \<longrightarrow> q \<le> p))"
proof (cases "py_rfind (py_slice buf h (min (length buf) (h + max_scan))) PDF_EOF")
  case None
  with py_rfind_window_None [OF PDF_EOF_nonempty None]
  show ?thesis by (simp add: PDF_find_footer_def)
next
  case (Some l)
  have len: "length PDF_EOF = 5" by (simp add: PDF_EOF_def)
  from Some have "find_footer PDFPlugin buf h max_scan = Some (h + l + 5)"
    by (simp add: PDF_find_footer_def len)
  moreover from py_rfind_window_Some [OF PDF_EOF_nonempty Some]
  have "sig_in_window PDF_EOF buf h max_scan (h + l) \<and>
    (\<forall>q. sig_in_window PDF_EOF buf h max_scan q \<longrightarrow> q \<le> h + l)" by blast
  ultimately show ?thesis by auto
qed

text \<open>
  A PDF with an incremental update: \<^verbatim>\<open>%%EOF\<close> at 9 and at 22, the carve ends at 27.
\<close>

theorem PDF_find_footer_last_EOF_witness:
  "find_footer PDFPlugin pdf_two_eof 0 100 = Some 27 \<and>
   sig_in_window PDF_EOF pdf_two_eof 0 100 9 \<and>
   (\<exists>p. 27 = p + 5 \<and> sig_in_window PDF_EOF pdf_two_eof 0 100 p \<and>
     (\<forall>q. sig_in_window PDF_EOF pdf_two_eof 0 100 q \<longrightarrow> q \<le> p))"
proof -
  have v: "find_footer PDFPlugin pdf_two_eof 0 100 = Some 27"
    by (simp add: PDF_find_footer_def pdf_two_eof_def PDF_EOF_def py_slice_def py_rfind_def)
  have i: "sig_in_window PDF_EOF pdf_two_eof 0 100 9"
    by (simp add: sig_in_window_def pdf_two_eof_def PDF_EOF_def py_slice_def)
  from PDF_find_footer_last_EOF [of pdf_two_eof 0 100] v i show ?thesis by simp
qed

text \<open>
  C8. \<^verbatim>\<open>PDFPlugin.validate\<close> is true exactly for the byte strings that start with
  \<^verbatim>\<open>%PDF-\<close> and contain \<^verbatim>\<open>%%EOF\<close>. The inspection of \<^verbatim>\<open>startxref\<close> in the last 2048
  bytes returns true whether the line after it parses as an integer or the parse raises, so
  it never changes the verdict.
\<close>

theorem PDF_validate_iff:
  "validate PDFPlugin data \<longleftrightarrow>
     (\<exists>rest. data = ''%PDF-'' @ rest) \<and> (\<exists>pre post. data = pre @ ''%%EOF'' @ post)"
proof -
  have "PDF_validate data \<longleftrightarrow> prefix PDF_HEADER data \<and> py_in PDF_EOF data"
    by (simp add: PDF_validate_def Let_def split: sum.split)
  then show ?thesis
    by (simp add: py_in_iff prefix_def PDF_HEADER_def PDF_EOF_def)
qed

subsection \<open>JPEG\<close>

lemma find_first_EOI_after_SOI:
  "find_first EOI (SOI @ rest) = map_option (\<lambda>i. i + 2) (find_first EOI rest)"
  by (cases "find_first EOI rest") (simp_all add: EOI_def SOI_def option.map_comp comp_def)

text \<open>
  C7. For every view, every offset \<open>h\<close> at which \<^verbatim>\<open>FF D8\<close> occurs, every span and every
  chunk size, \<^verbatim>\<open>JPEGPlugin.fragmented_try_bridge\<close> returns what
  \<^verbatim>\<open>JPEGPlugin.find_footer\<close> returns with that span as \<^verbatim>\<open>max_scan\<close>. The bridge searches
  from \<open>h\<close> and the locator from \<open>h + 2\<close>, but \<^verbatim>\<open>FF D9\<close> cannot occur at \<open>h\<close> or
  \<open>h + 1\<close> when \<^verbatim>\<open>FF D8\<close> is at \<open>h\<close>.
\<close>

theorem JPEG_bridge_is_find_footer:
  assumes "py_slice buf h (h + 2) = SOI"
  shows "fragmented_try_bridge JPEGPlugin buf h max_span chunk =
         find_footer JPEGPlugin buf h max_span"
proof -
  let ?E = "min (length buf) (h + max_span)"
  let ?scan = "py_slice buf h ?E"
  have bridge: "fragmented_try_bridge JPEGPlugin buf h max_span chunk =
      map_option (\<lambda>p. h + p + 2) (find_first EOI ?scan)"
    by (cases "find_first EOI ?scan") (simp_all add: JPEG_fragmented_try_bridge_def py_find_def py_slice_def)
  show ?thesis
  proof (cases "?E < h + 2")
    case True
    moreover have "length ?scan = ?E - h" by (simp add: py_slice_def min.commute)
    moreover have "length EOI = 2" by (simp add: EOI_def)
    ultimately have "length ?scan < length EOI" by linarith
    then have "find_first EOI ?scan = None" by (rule find_first_short)
    with True bridge show ?thesis by (simp add: JPEG_find_footer_def py_find_def)
  next
    case False
    then have E: "h + 2 \<le> ?E" by linarith
    have "take 2 ?scan = py_slice buf h (h + 2)"
      using E by (simp add: py_slice_def take_drop min_def add.commute)
    with assms have "take 2 ?scan = SOI" by simp
    moreover have "drop 2 ?scan = py_slice buf (h + 2) ?E"
      by (simp add: py_slice_def add.commute)
    ultimately have scan: "?scan = SOI @ py_slice buf (h + 2) ?E"
      by (metis append_take_drop_id)
    have "find_first EOI ?scan = map_option (\<lambda>i. i + 2) (find_first EOI (py_slice buf (h + 2) ?E))"
      by (subst scan) (rule find_first_EOI_after_SOI)
    moreover have "min ?E (length buf) = ?E" by simp
    with False have "find_footer JPEGPlugin buf h max_span =
        map_option (\<lambda>i. h + 2 + i + 2) (find_first EOI (py_slice buf (h + 2) ?E))"
      by (cases "find_first EOI (py_slice buf (h + 2) ?E)")
         (simp_all add: JPEG_find_footer_def py_find_def Let_def del: min.absorb1 min.absorb2 min.absorb3 min.absorb4 min.bounded_iff)
    ultimately show ?thesis
      using bridge by (simp add: option.map_comp comp_def)
  qed
qed

text \<open>
  A JPEG that starts at offset 3 of its view: both return 11.
\<close>

theorem JPEG_bridge_is_find_footer_witness:
  "py_slice jpeg_at_3 3 (3 + 2) = SOI \<and>
   fragmented_try_bridge JPEGPlugin jpeg_at_3 3 100 4096 = Some 11 \<and>
   find_footer JPEGPlugin jpeg_at_3 3 100 = Some 11"
proof -
  have s: "py_slice jpeg_at_3 3 (3 + 2) = SOI"
    by (simp add: jpeg_at_3_def py_slice_def SOI_def)
  have f: "find_footer JPEGPlugin jpeg_at_3 3 100 = Some 11"
    by (simp add: jpeg_at_3_def JPEG_find_footer_def py_find_def py_slice_def SOI_def SOS_def EOI_def)
  from JPEG_bridge_is_find_footer [OF s, of 100 4096] s f show ?thesis by simp
qed

subsection \<open>ZIP\<close>

lemma ZIP_parse_eocd_end_value:
  "ZIP_parse_eocd_end buf p e =
     (if p + 22 \<le> e \<and> p + 22 \<le> length buf
      then min (p + 22 + le_uint (py_slice buf (p + 20) (p + 22))) (length buf)
      else p + 22)"
proof (cases "p + 22 \<le> e")
  case False
  then show ?thesis by (simp add: ZIP_parse_eocd_end_def)
next
  case e: True
  show ?thesis
  proof (cases "p + 22 \<le> length buf")
    case True
    then have len: "length (py_slice buf p (p + 22)) = 22" by (simp add: py_slice_def)
    have "take 22 (drop p (take (p + 22) buf)) = drop p (take (p + 22) buf)"
      using len by (simp add: py_slice_def)
    then have "py_slice (py_slice buf p (p + 22)) 20 22 = py_slice buf (p + 20) (p + 22)"
      by (simp add: py_slice_def add.commute)
    with e True len show ?thesis
      by (simp add: ZIP_parse_eocd_end_def unpack_eocd_def Let_def)
  next
    case False
    then have "length (py_slice buf p (p + 22)) \<noteq> 22" by (simp add: py_slice_def)
    with e False show ?thesis
      by (simp add: ZIP_parse_eocd_end_def unpack_eocd_def)
  qed
qed

lemma ZIP_sigs_nonempty: "EOCD \<noteq> []" "EOCD64 \<noteq> []" "EOCD64_LOC \<noteq> []"
  by (simp_all add: EOCD_def EOCD64_def EOCD64_LOC_def)

text \<open>
  C4. When the last EOCD of the search window is at \<open>p\<close> and the window does not hold
  both ZIP64 signatures (in particular when it holds neither), \<^verbatim>\<open>ZIPPlugin.find_footer\<close>
  reads the comment length from bytes 20 and 21 of the 22-byte structure, little-endian, and
  returns \<open>p + 22 + comment_length\<close> cut to the length of the view; when the 22 bytes do
  not lie inside the search window, it returns \<open>p + 22\<close>.
\<close>

theorem ZIP_find_footer_plain_eocd:
  assumes eocd: "sig_in_window EOCD buf h max_scan p"
    and last: "\<forall>q. sig_in_window EOCD buf h max_scan q \<longrightarrow> q \<le> p"
    and no64: "(\<forall>q. \<not> sig_in_window EOCD64 buf h max_scan q) \<or>
               (\<forall>q. \<not> sig_in_window EOCD64_LOC buf h max_scan q)"
  shows "find_footer ZIPPlugin buf h max_scan =
     Some (if p + 22 \<le> min (length buf) (h + max_scan)
           then min (p + 22 + le_uint (py_slice buf (p + 20) (p + 22))) (length buf)
           else p + 22)"
proof -
  let ?E = "min (length buf) (h + max_scan)"
  let ?win = "py_slice buf h ?E"
  from eocd have hp: "h \<le> p" by (simp add: sig_in_window_def)
  have pe: "py_rfind ?win EOCD = Some (p - h)"
    by (rule py_rfind_window_last [OF ZIP_sigs_nonempty(1) eocd last])
  from no64 have "py_rfind ?win EOCD64 = None \<or> py_rfind ?win EOCD64_LOC = None"
  proof
    assume "\<forall>q. \<not> sig_in_window EOCD64 buf h max_scan q"
    from py_rfind_window_absent [OF ZIP_sigs_nonempty(2) this] show ?thesis by simp
  next
    assume "\<forall>q. \<not> sig_in_window EOCD64_LOC buf h max_scan q"
    from py_rfind_window_absent [OF ZIP_sigs_nonempty(3) this] show ?thesis by simp
  qed
  with pe hp have "find_footer ZIPPlugin buf h max_scan = Some (ZIP_parse_eocd_end buf p ?E)"
    by (auto simp: ZIP_find_footer_def Let_def)
  moreover have "p + 22 \<le> ?E \<and> p + 22 \<le> length buf \<longleftrightarrow> p + 22 \<le> ?E" by auto
  ultimately show ?thesis by (simp only: ZIP_parse_eocd_end_value)
qed

text \<open>
  An archive whose EOCD at 4 has comment length 7 and the comment \<^verbatim>\<open>foo.txt\<close>: the carve
  ends at \<open>4 + 29\<close>, the end of the view, with all 29 bytes of the EOCD tail.
\<close>

theorem ZIP_find_footer_plain_eocd_witness:
  "sig_in_window EOCD zip_with_comment 0 100 4 \<and>
   le_uint (py_slice zip_with_comment (4 + 20) (4 + 22)) = 7 \<and>
   find_footer ZIPPlugin zip_with_comment 0 100 = Some (4 + 29) \<and>
   length zip_with_comment = 4 + 29"
proof -
  let ?win = "py_slice zip_with_comment 0 (min (length zip_with_comment) (0 + 100))"
  have win: "?win = zip_with_comment"
    by (simp add: py_slice_def zip_with_comment_def LFH_def EOCD_def zeros16_def)
  have e: "sig_in_window EOCD zip_with_comment 0 100 4"
    by (simp add: sig_in_window_def zip_with_comment_def LFH_def EOCD_def zeros16_def py_slice_def)
  have "py_rfind ?win EOCD = Some 4"
    unfolding win by (simp add: zip_with_comment_def LFH_def EOCD_def zeros16_def py_rfind_def)
  from py_rfind_window_Some(2) [OF ZIP_sigs_nonempty(1) this]
  have l: "\<forall>q. sig_in_window EOCD zip_with_comment 0 100 q \<longrightarrow> q \<le> 4" by simp
  have "py_rfind ?win EOCD64 = None"
    unfolding win by (simp add: zip_with_comment_def LFH_def EOCD_def zeros16_def EOCD64_def py_rfind_def)
  from py_rfind_window_None [OF ZIP_sigs_nonempty(2) this]
  have n: "(\<forall>q. \<not> sig_in_window EOCD64 zip_with_comment 0 100 q) \<or>
           (\<forall>q. \<not> sig_in_window EOCD64_LOC zip_with_comment 0 100 q)" by simp
  have c: "le_uint (py_slice zip_with_comment (4 + 20) (4 + 22)) = 7"
    by (simp add: zip_with_comment_def LFH_def EOCD_def zeros16_def py_slice_def)
  have len: "length zip_with_comment = 33"
    by (simp add: zip_with_comment_def LFH_def EOCD_def zeros16_def)
  from ZIP_find_footer_plain_eocd [OF e l n] c len
  have "find_footer ZIPPlugin zip_with_comment 0 100 = Some 33" by simp
  with e c len show ?thesis by simp
qed

text \<open>
  In the branch for ZIP64 archives the result is the offset of the last EOCD plus 22, for
  every view: the comment length is not read.
\<close>

lemma ZIP_find_footer_zip64_branch:
  assumes loc: "sig_in_window EOCD64_LOC buf h max_scan l"
    and rec64: "sig_in_window EOCD64 buf h max_scan q"
      "\<forall>q'. sig_in_window EOCD64 buf h max_scan q' \<longrightarrow> q' \<le> q"
    and eocd: "sig_in_window EOCD buf h max_scan p"
      "\<forall>p'. sig_in_window EOCD buf h max_scan p' \<longrightarrow> p' \<le> p"
    and after: "q < p"
  shows "find_footer ZIPPlugin buf h max_scan = Some (p + 22)"
proof -
  let ?win = "py_slice buf h (min (length buf) (h + max_scan))"
  from rec64(1) eocd(1) have hq: "h \<le> q" and hp: "h \<le> p" by (simp_all add: sig_in_window_def)
  have "py_rfind ?win EOCD64_LOC \<noteq> None"
    using py_rfind_window_None [OF ZIP_sigs_nonempty(3), of buf h max_scan l] loc by blast
  moreover have "py_rfind ?win EOCD64 = Some (q - h)"
    by (rule py_rfind_window_last [OF ZIP_sigs_nonempty(2) rec64])
  moreover have "py_rfind ?win EOCD = Some (p - h)"
    by (rule py_rfind_window_last [OF ZIP_sigs_nonempty(1) eocd])
  ultimately show ?thesis
    using hq hp after by (auto simp: ZIP_find_footer_def Let_def)
qed

text \<open>
  C1. With both ZIP64 signatures in the window and the last EOCD after the EOCD64 record,
  \<^verbatim>\<open>ZIPPlugin.find_footer\<close> returns \<open>eocd_offset + 22\<close> and does not add the comment
  length: the source announces \<^verbatim>\<open>we'll extend below\<close> and never does. For the view with the
  EOCD at 12 and the 7-byte comment \<^verbatim>\<open>foo.txt\<close> it returns 34, while
  \<open>eocd_offset + 22 + comment_length\<close> is 41, the length of the view.
\<close>

theorem ZIP_find_footer_zip64_drops_comment:
  "find_footer ZIPPlugin zip64_with_comment 0 100 = Some (12 + 22) \<and>
   py_slice zip64_with_comment 12 16 = EOCD \<and>
   le_uint (py_slice zip64_with_comment (12 + 20) (12 + 22)) = 7 \<and>
   length zip64_with_comment = 12 + 22 + 7"
  by (simp add: ZIP_find_footer_def zip64_with_comment_def LFH_def EOCD_def zeros16_def EOCD64_def
      EOCD64_LOC_def py_slice_def py_rfind_def Let_def)

section \<open>Runs of the scanner\<close>

lemma example_carver_init:
  "Carver_init (example_opts (map fmt ps) ms d fr) = Inr (example_carver ps ms d fr)"
proof -
  have "lookup_plugins (map fmt ps) = Inr ps"
  proof (induction ps)
    case Nil
    then show ?case by simp
  next
    case (Cons p ps)
    then show ?case by (cases p) (simp_all add: FORMAT_PLUGINS_def)
  qed
  then show ?thesis by (simp add: Carver_init_def example_carver_def example_opts_def)
qed

subsection \<open>An end offset beyond the view\<close>

lemma truncated_zip_footer:
  "find_footer ZIPPlugin truncated_zip 0 (scan_window (example_carver [ZIPPlugin] 1000 0 False) ZIPPlugin)
     = Some 26"
  by code_simp

lemma truncated_zip_run:
  "run (example_carver [ZIPPlugin] 1000 0 False) truncated_zip =
     \<lparr> records = [truncated_zip_record],
       written = [(''out/carved/zip_000000000000.zip'', truncated_zip)],
       validate_calls = [(ZIPPlugin, truncated_zip)] \<rparr>"
  by code_simp

text \<open>
  C3. There are a view and options for which \<^verbatim>\<open>ZIPPlugin.find_footer\<close> returns an end
  offset greater than the length of the view, and the run appends a record whose size,
  \<^verbatim>\<open>end - start\<close>, exceeds the number of bytes sliced, validated and written. The view is
  a local file header followed by an EOCD signature, 8 bytes: the EOCD lies less than 22
  bytes before the end of the window, the locator returns 26, and the record has size 26
  for 8 bytes written.
\<close>

theorem ZIP_end_beyond_view_is_recorded:
  "\<exists>c buf e r path data.
      find_footer ZIPPlugin buf 0 (scan_window c ZIPPlugin) = Some e \<and> length buf < e \<and>
      records (run c buf) = [r] \<and> written (run c buf) = [(path, data)] \<and>
      validate_calls (run c buf) = [(ZIPPlugin, data)] \<and>
      r_out_path r = path \<and> r_size r = int (r_end r) - int (r_start r) \<and>
      int (length data) < r_size r"
proof -
  let ?c = "example_carver [ZIPPlugin] 1000 0 False"
  let ?path = "''out/carved/zip_000000000000.zip''"
  note truncated_zip_footer
  moreover have "length truncated_zip < 26"
    by (simp add: truncated_zip_def LFH_def EOCD_def)
  moreover have "records (run ?c truncated_zip) = [truncated_zip_record]"
    and "written (run ?c truncated_zip) = [(?path, truncated_zip)]"
    and "validate_calls (run ?c truncated_zip) = [(ZIPPlugin, truncated_zip)]"
    by (simp_all add: truncated_zip_run)
  moreover have "r_out_path truncated_zip_record = ?path"
    and "r_size truncated_zip_record =
      int (r_end truncated_zip_record) - int (r_start truncated_zip_record)"
    and "int (length truncated_zip) < r_size truncated_zip_record"
    by (simp_all add: truncated_zip_record_def truncated_zip_def LFH_def EOCD_def)
  ultimately show ?thesis by blast
qed

subsection \<open>Rules for the loops\<close>

text \<open>
  A property that holds before a loop and is kept by every carve holds after the loop. The
  rule for the top-level loop lets the property depend on the cursor.
\<close>

lemma embedded_carve_state:
  "embedded_carve c p data pn h e st =
     st \<lparr> validate_calls := validate_calls st @ [(p, py_slice data h e)],
          written := written st @
            [(out_dir (opts c) @ ''/carved/'' @ (pn @ ''__'' @ fmt p @ ''_'' @ hex_padded 8 h)
                @ file_ext (fmt p), py_slice data h e)],
          records := records st @
            [\<lparr> r_fmt = fmt p, r_start = h, r_end = e, r_size = int e - int h,
               r_out_path = out_dir (opts c) @ ''/carved/''
                  @ (pn @ ''__'' @ fmt p @ ''_'' @ hex_padded 8 h) @ file_ext (fmt p),
               r_validated = validate p (py_slice data h e),
               r_embedded_parent = Some pn, r_notes = Some ''embedded'' \<rparr>] \<rparr>"
  by (simp add: embedded_carve_def call_validate_def emit_file_def Let_def)

lemma top_carve_state:
  "top_carve c p buf es d h e uf st =
     (if embedded_depth (opts c) > d
      then scan_memory_for_embedded c p (py_slice buf h e) (d + 1) (candidate_name p buf h)
             (top_emitted c p buf es h e uf st)
      else top_emitted c p buf es h e uf st)"
  by (simp add: top_carve_def top_emitted_def top_record_def call_validate_def emit_file_def Let_def)

lemma scan_embedded_plugin_rule:
  assumes "P st"
    and step: "\<And>h e st. \<lbrakk>P st; find_footer p data h (scan_window c p) = Some e; h < e;
                 int e - int h \<le> int (max_size (opts c))\<rbrakk>
               \<Longrightarrow> P (embedded_carve c p data pn h e st)"
  shows "P (scan_embedded_plugin c p data pn off st)"
  using assms
proof (induction c p data pn off st rule: scan_embedded_plugin.induct)
  case (1 c p data pn off st)
  note inv = "1.prems"(1) and step' = "1.prems"(2)
  let ?lhs = "scan_embedded_plugin c p data pn off st"
  show ?case
  proof (cases "py_find data (hd (headers p)) off (length data)")
    case None
    have eq: "?lhs = st"
      by (subst scan_embedded_plugin.simps) (simp add: None)
    show ?thesis unfolding eq by (rule inv)
  next
    case (Some h)
    show ?thesis
    proof (cases "find_footer p data h (scan_window c p)")
      case None
      have eq: "?lhs = scan_embedded_plugin c p data pn (h + 1) st"
        by (subst scan_embedded_plugin.simps) (simp add: Some None)
      show ?thesis unfolding eq by (rule "1.IH"(1) [OF Some None inv step'])
    next
      case e: (Some e)
      show ?thesis
      proof (cases "0 < int e - int h \<and> int e - int h \<le> int (max_size (opts c))")
        case True
        then have "h < e" and "int e - int h \<le> int (max_size (opts c))" by simp_all
        then have carved: "P (embedded_carve c p data pn h e st)"
          by (rule step' [OF inv e])
        have eq: "?lhs = scan_embedded_plugin c p data pn e (embedded_carve c p data pn h e st)"
          by (subst scan_embedded_plugin.simps) (simp only: Some e option.case if_P [OF True])
        show ?thesis unfolding eq by (rule "1.IH"(2) [OF Some e True carved step'])
      next
        case False
        have eq: "?lhs = scan_embedded_plugin c p data pn (h + 1) st"
          by (subst scan_embedded_plugin.simps) (simp only: Some e option.case if_not_P [OF False])
        show ?thesis unfolding eq by (rule "1.IH"(3) [OF Some e False inv step'])
      qed
    qed
  qed
qed

lemma scan_memory_for_embedded_loop_rule:
  assumes "P st" and "set ps \<subseteq> set (plugins c)"
    and step: "\<And>p h e st. \<lbrakk>P st; p \<in> set (plugins c); fmt p \<noteq> fmt parent;
                 find_footer p data h (scan_window c p) = Some e; h < e;
                 int e - int h \<le> int (max_size (opts c))\<rbrakk>
               \<Longrightarrow> P (embedded_carve c p data pn h e st)"
  shows "P (scan_memory_for_embedded_loop c parent data pn ps st)"
  using assms(1,2)
proof (induction ps arbitrary: st)
  case Nil
  then show ?case by simp
next
  case (Cons q qs)
  from Cons.prems(2) have q: "q \<in> set (plugins c)" and qs: "set qs \<subseteq> set (plugins c)"
    by simp_all
  show ?case
  proof (cases "fmt q = fmt parent")
    case True
    with Cons.IH [OF Cons.prems(1) qs] show ?thesis by simp
  next
    case False
    have "P (scan_embedded_plugin c q data pn 0 st)"
      by (rule scan_embedded_plugin_rule [where P = P, OF Cons.prems(1)]) (rule step [OF _ q False])
    from Cons.IH [OF this qs] False show ?thesis by simp
  qed
qed

lemma scan_memory_for_embedded_rule:
  assumes "P st"
    and step: "\<And>p h e st. \<lbrakk>P st; p \<in> set (plugins c); fmt p \<noteq> fmt parent;
                 find_footer p data h (scan_window c p) = Some e; h < e;
                 int e - int h \<le> int (max_size (opts c))\<rbrakk>
               \<Longrightarrow> P (embedded_carve c p data pn h e st)"
  shows "P (scan_memory_for_embedded c parent data depth pn st)"
  unfolding scan_memory_for_embedded_def
  by (rule scan_memory_for_embedded_loop_rule [where P = P, OF assms(1) subset_refl]) (rule step)

lemma scan_plugin_rule:
  assumes "P off st"
    and skip: "\<And>off h st. \<lbrakk>P off st; off \<le> h\<rbrakk> \<Longrightarrow> P (h + 1) st"
    and carve: "\<And>off h e uf st. \<lbrakk>P off st; off \<le> h; h < e;
                  int e - int h \<le> int (max_size (opts c));
                  locate_end c p buf h = (Some e, uf)\<rbrakk>
                \<Longrightarrow> P e (top_carve c p buf es d h e uf st)"
    and fin: "\<And>off st. P off st \<Longrightarrow> Q st"
  shows "Q (scan_plugin c p buf es d off st)"
  using assms
proof (induction c p buf es d off st rule: scan_plugin.induct)
  case (1 c p buf es d off st)
  note inv = "1.prems"(1) and skip' = "1.prems"(2) and carve' = "1.prems"(3)
    and fin' = "1.prems"(4)
  let ?lhs = "scan_plugin c p buf es d off st"
  show ?case
  proof (cases "off < length buf")
    case False
    have eq: "?lhs = st" by (subst scan_plugin.simps) (simp only: if_not_P [OF False])
    show ?thesis unfolding eq by (rule fin' [OF inv])
  next
    case lt: True
    show ?thesis
    proof (cases "py_find buf (hd (headers p)) off (length buf)")
      case None
      have eq: "?lhs = st"
        by (subst scan_plugin.simps) (simp only: if_P [OF lt] None option.case)
      show ?thesis unfolding eq by (rule fin' [OF inv])
    next
      case (Some h)
      from py_find_header [OF Some] have oh: "off \<le> h" by simp
      obtain x uf where loc: "locate_end c p buf h = (x, uf)" by (cases "locate_end c p buf h")
      show ?thesis
      proof (cases x)
        case None
        have eq: "?lhs = scan_plugin c p buf es d (h + 1) st"
          by (subst scan_plugin.simps)
             (simp only: if_P [OF lt] Some option.case loc None prod.case)
        show ?thesis unfolding eq
          by (rule "1.IH"(1) [OF lt Some loc [symmetric] None skip' [OF inv oh] skip' carve' fin'])
      next
        case e: (Some e)
        show ?thesis
        proof (cases "int e - int h \<le> 0 \<or> int (max_size (opts c)) < int e - int h")
          case True
          have eq: "?lhs = scan_plugin c p buf es d (h + 1) st"
            by (subst scan_plugin.simps)
               (simp only: if_P [OF lt] Some option.case loc e prod.case if_P [OF True])
          show ?thesis unfolding eq
            by (rule "1.IH"(2) [OF lt Some loc [symmetric] e True skip' [OF inv oh] skip' carve' fin'])
        next
          case False
          then have he: "h < e" and sz: "int e - int h \<le> int (max_size (opts c))" by simp_all
          from loc e have loc': "locate_end c p buf h = (Some e, uf)" by simp
          have carved: "P e (top_carve c p buf es d h e uf st)"
            by (rule carve' [OF inv oh he sz loc'])
          have eq: "?lhs = scan_plugin c p buf es d e (top_carve c p buf es d h e uf st)"
            by (subst scan_plugin.simps)
               (simp only: if_P [OF lt] Some option.case loc e prod.case if_not_P [OF False])
          show ?thesis unfolding eq
            by (rule "1.IH"(3) [OF lt Some loc [symmetric] e False carved skip' carve' fin'])
        qed
      qed
    qed
  qed
qed

lemma fold_invariant:
  assumes "P st" and "\<And>x st. P st \<Longrightarrow> P (f x st)"
  shows "P (fold f xs st)"
  using assms(1) by (induction xs arbitrary: st) (simp_all add: assms(2))

subsection \<open>Records, writes and validator calls\<close>

lemma records_match_emissions_append:
  assumes "records_match_emissions c st" and "record_ok c r w v"
  shows "records_match_emissions c
     (st \<lparr> validate_calls := validate_calls st @ [v], written := written st @ [w],
           records := records st @ [r] \<rparr>)"
  using assms by (auto simp: records_match_emissions_def nth_append less_Suc_eq)

lemma embedded_carve_match:
  assumes "records_match_emissions c st" and "h < e"
    and "int e - int h \<le> int (max_size (opts c))"
  shows "records_match_emissions c (embedded_carve c p data pn h e st)"
  unfolding embedded_carve_state
  by (rule records_match_emissions_append [OF assms(1)]) (use assms(2,3) in \<open>simp add: record_ok_def\<close>)

lemma top_emitted_match:
  assumes "records_match_emissions c st" and "h < e"
    and "int e - int h \<le> int (max_size (opts c))"
  shows "records_match_emissions c (top_emitted c p buf es h e uf st)"
  unfolding top_emitted_def
  by (rule records_match_emissions_append [OF assms(1)])
     (use assms(2,3) in \<open>simp add: record_ok_def top_record_def\<close>)

lemma top_carve_match:
  assumes "records_match_emissions c st" and "h < e"
    and "int e - int h \<le> int (max_size (opts c))"
  shows "records_match_emissions c (top_carve c p buf es d h e uf st)"
proof -
  note emitted = top_emitted_match [OF assms, of p buf es uf]
  have "records_match_emissions c
      (scan_memory_for_embedded c p (py_slice buf h e) (d + 1) (candidate_name p buf h)
         (top_emitted c p buf es h e uf st))"
    by (rule scan_memory_for_embedded_rule [where P = "records_match_emissions c", OF emitted])
       (rule embedded_carve_match)
  with emitted show ?thesis by (simp add: top_carve_state)
qed

lemma scan_plugin_match:
  assumes "records_match_emissions c st"
  shows "records_match_emissions c (scan_plugin c p buf es d off st)"
  by (rule scan_plugin_rule [where P = "\<lambda>off. records_match_emissions c"
        and Q = "records_match_emissions c", OF assms])
     (simp_all add: top_carve_match)

text \<open>
  C9. For every record appended during a run, top-level or embedded:
  \<open>0 < size \<le> max_size\<close>, \<open>size = end - start\<close>, and the validator of its plugin was
  called once, on the bytes written to the sink, and the record stores the verdict of that
  call. The records, the writes and the validator calls of a run correspond one to one.
\<close>

theorem run_records_match_emissions:
  "records_match_emissions c (run c buf)"
proof -
  have "records_match_emissions c initial_state"
    by (simp add: records_match_emissions_def initial_state_def)
  then show ?thesis
    unfolding run_def scan_def
    by (rule fold_invariant) (rule scan_plugin_match)
qed

text \<open>
  A PDF that holds a ZIP, scanned with one level of embedded scanning: four records, and
  the second one, embedded in the PDF, agrees with the second write and the second call.
\<close>

theorem run_records_match_emissions_witness:
  "length (records (run (example_carver [PDFPlugin, ZIPPlugin] 1000 1 False) nested_pdf)) = 4 \<and>
   (1::nat) < 4 \<and>
   record_ok (example_carver [PDFPlugin, ZIPPlugin] 1000 1 False)
     (records (run (example_carver [PDFPlugin, ZIPPlugin] 1000 1 False) nested_pdf) ! 1)
     (written (run (example_carver [PDFPlugin, ZIPPlugin] 1000 1 False) nested_pdf) ! 1)
     (validate_calls (run (example_carver [PDFPlugin, ZIPPlugin] 1000 1 False) nested_pdf) ! 1) \<and>
   r_embedded_parent
     (records (run (example_carver [PDFPlugin, ZIPPlugin] 1000 1 False) nested_pdf) ! 1)
     = Some ''pdf_000000000000''"
proof -
  let ?st = "run (example_carver [PDFPlugin, ZIPPlugin] 1000 1 False) nested_pdf"
  have len: "length (records ?st) = 4" by code_simp
  have par: "r_embedded_parent (records ?st ! 1) = Some ''pdf_000000000000''" by code_simp
  from run_records_match_emissions [of "example_carver [PDFPlugin, ZIPPlugin] 1000 1 False" nested_pdf]
  have "\<forall>i < length (records ?st).
      record_ok (example_carver [PDFPlugin, ZIPPlugin] 1000 1 False)
        (records ?st ! i) (written ?st ! i) (validate_calls ?st ! i)"
    by (simp add: records_match_emissions_def)
  with len par show ?thesis by simp
qed

subsection \<open>Ranges of the top-level records of a plugin\<close>

lemma tiny_jpeg_twice:
  "records (run (example_carver [JPEGPlugin, JPEGPlugin] 1000 0 False) tiny_jpeg) =
     [\<lparr> r_fmt = ''jpeg'', r_start = 0, r_end = 6, r_size = 6,
        r_out_path = ''out/carved/jpeg_000000000000.jpg'', r_validated = True,
        r_embedded_parent = None, r_notes = None \<rparr>,
      \<lparr> r_fmt = ''jpeg'', r_start = 0, r_end = 6, r_size = 6,
        r_out_path = ''out/carved/jpeg_000000000000.jpg'', r_validated = True,
        r_embedded_parent = None, r_notes = None \<rparr>]"
  by code_simp

text \<open>
  C10, as stated, fails when a format is listed twice: with \<^verbatim>\<open>formats = [jpeg, jpeg]\<close>
  the JPEG plugin makes two passes over the view and records the range \<open>[0, 6)\<close> twice.
\<close>

theorem plugin_listed_twice_overlaps:
  "\<not> non_overlapping
      (top_level_records JPEGPlugin (run (example_carver [JPEGPlugin, JPEGPlugin] 1000 0 False) tiny_jpeg))"
proof
  let ?rs = "top_level_records JPEGPlugin
    (run (example_carver [JPEGPlugin, JPEGPlugin] 1000 0 False) tiny_jpeg)"
  assume "non_overlapping ?rs"
  then have "0 < (1::nat) \<and> 1 < length ?rs \<longrightarrow> \<not> overlap (?rs ! 0) (?rs ! 1)"
    unfolding non_overlapping_def by blast
  then show False
    by (simp add: top_level_records_def tiny_jpeg_twice overlap_def)
qed

lemma fmt_inject: "fmt p = fmt q \<longleftrightarrow> p = q"
  by (cases p; cases q) simp_all

lemma top_level_embedded_carve:
  "top_level_records p (embedded_carve c q data pn h e st) = top_level_records p st"
  by (simp add: embedded_carve_state top_level_records_def)

lemma top_level_scan_memory_for_embedded:
  "top_level_records p (scan_memory_for_embedded c q data depth pn st) = top_level_records p st"
  by (rule scan_memory_for_embedded_rule
        [where P = "\<lambda>s. top_level_records p s = top_level_records p st"])
     (simp_all add: top_level_embedded_carve)

lemma top_level_top_carve:
  "top_level_records p (top_carve c q buf None d h e uf st) =
     (if q = p then top_level_records p st @ [top_record c q buf None h e uf]
      else top_level_records p st)"
  by (simp add: top_carve_state top_level_scan_memory_for_embedded)
     (simp add: top_emitted_def top_level_records_def top_record_def fmt_inject)

lemma other_plugin_pass:
  assumes "q \<noteq> p"
  shows "top_level_records p (scan_plugin c q buf None d off st) = top_level_records p st"
  by (rule scan_plugin_rule
        [where P = "\<lambda>off s. top_level_records p s = top_level_records p st"
           and Q = "\<lambda>s. top_level_records p s = top_level_records p st"])
     (simp_all add: top_level_top_carve assms)

lemma own_plugin_pass:
  assumes "sorted_wrt ends_before (top_level_records p st)"
    and "\<forall>r \<in> set (top_level_records p st). r_end r \<le> off"
  shows "sorted_wrt ends_before (top_level_records p (scan_plugin c p buf None d off st))"
proof (rule scan_plugin_rule
    [where P = "\<lambda>off s. sorted_wrt ends_before (top_level_records p s) \<and>
                  (\<forall>r \<in> set (top_level_records p s). r_end r \<le> off)"
       and Q = "\<lambda>s. sorted_wrt ends_before (top_level_records p s)"])
  show "sorted_wrt ends_before (top_level_records p st) \<and>
      (\<forall>r \<in> set (top_level_records p st). r_end r \<le> off)"
    using assms by simp
next
  fix off h :: nat and s
  assume "sorted_wrt ends_before (top_level_records p s) \<and>
      (\<forall>r \<in> set (top_level_records p s). r_end r \<le> off)" and "off \<le> h"
  then show "sorted_wrt ends_before (top_level_records p s) \<and>
      (\<forall>r \<in> set (top_level_records p s). r_end r \<le> h + 1)"
    by fastforce
next
  fix off h e :: nat and uf s
  assume inv: "sorted_wrt ends_before (top_level_records p s) \<and>
      (\<forall>r \<in> set (top_level_records p s). r_end r \<le> off)"
    and "off \<le> h" and "h < e"
  then have "\<forall>r \<in> set (top_level_records p s). r_end r \<le> h" by fastforce
  with inv \<open>h < e\<close>
  show "sorted_wrt ends_before (top_level_records p (top_carve c p buf None d h e uf s)) \<and>
      (\<forall>r \<in> set (top_level_records p (top_carve c p buf None d h e uf s)). r_end r \<le> e)"
    by (auto simp: top_level_top_carve sorted_wrt_append ends_before_def top_record_def)
next
  fix off :: nat and s
  assume "sorted_wrt ends_before (top_level_records p s) \<and>
      (\<forall>r \<in> set (top_level_records p s). r_end r \<le> off)"
  then show "sorted_wrt ends_before (top_level_records p s)" by simp
qed

lemma unlisted_plugin_passes:
  assumes "p \<notin> set ps"
  shows "top_level_records p (fold (\<lambda>q. scan_plugin c q buf None d 0) ps st) =
         top_level_records p st"
  using assms
proof (induction ps arbitrary: st)
  case Nil
  then show ?case by simp
next
  case (Cons q qs)
  then have "q \<noteq> p" and "p \<notin> set qs" by auto
  with Cons.IH [of "scan_plugin c q buf None d 0 st"] show ?case
    by (simp add: other_plugin_pass)
qed

lemma listed_once_passes:
  assumes "count_list ps p \<le> 1"
    and "sorted_wrt ends_before (top_level_records p st)"
    and "p \<in> set ps \<longrightarrow> top_level_records p st = []"
  shows "sorted_wrt ends_before
           (top_level_records p (fold (\<lambda>q. scan_plugin c q buf None d 0) ps st))"
  using assms
proof (induction ps arbitrary: st)
  case Nil
  then show ?case by simp
next
  case (Cons q qs)
  show ?case
  proof (cases "q = p")
    case True
    with Cons.prems(1) have "count_list qs p = 0" by simp
    then have notin: "p \<notin> set qs" by (simp add: count_list_0_iff)
    from True Cons.prems(3) have "top_level_records p st = []" by simp
    then have "sorted_wrt ends_before (top_level_records p (scan_plugin c p buf None d 0 st))"
      by (intro own_plugin_pass) simp_all
    with True show ?thesis
      by (simp add: unlisted_plugin_passes [OF notin])
  next
    case False
    with Cons.prems(1) have cnt: "count_list qs p \<le> 1" by simp
    have same: "top_level_records p (scan_plugin c q buf None d 0 st) = top_level_records p st"
      by (rule other_plugin_pass [OF False])
    from Cons.IH [OF cnt, of "scan_plugin c q buf None d 0 st"] same Cons.prems(2,3)
    show ?thesis by simp
  qed
qed

text \<open>
  C10, amended. For any single plugin that the options list once, the top-level records it
  produces during one run have pairwise non-overlapping ranges \<open>[start, end)\<close>: after each
  carve the cursor moves to \<open>end\<close>, so every later record of the pass starts at or after
  that end.
\<close>

theorem plugin_listed_once_non_overlapping:
  assumes "count_list (plugins c) p \<le> 1"
  shows "non_overlapping (top_level_records p (run c buf))"
proof -
  have "top_level_records p initial_state = []"
    by (simp add: top_level_records_def initial_state_def)
  with assms have sorted: "sorted_wrt ends_before (top_level_records p (run c buf))"
    unfolding run_def scan_def by (intro listed_once_passes) simp_all
  show ?thesis
    unfolding non_overlapping_def
  proof (intro allI impI)
    fix i j
    assume "i < j \<and> j < length (top_level_records p (run c buf))"
    with sorted have "ends_before (top_level_records p (run c buf) ! i)
        (top_level_records p (run c buf) ! j)"
      by (simp add: sorted_wrt_iff_nth_less)
    then show "\<not> overlap (top_level_records p (run c buf) ! i)
        (top_level_records p (run c buf) ! j)"
      by (simp add: overlap_def ends_before_def)
  qed
qed

text \<open>
  Two JPEGs one after the other, the plugin listed once: the ranges \<open>[0, 6)\<close> and
  \<open>[6, 12)\<close>.
\<close>

theorem plugin_listed_once_non_overlapping_witness:
  "count_list (plugins (example_carver [JPEGPlugin] 1000 0 False)) JPEGPlugin \<le> 1 \<and>
   map record_summary
     (top_level_records JPEGPlugin (run (example_carver [JPEGPlugin] 1000 0 False) two_jpegs)) =
     [(''jpeg'', 0, 6, None, None), (''jpeg'', 6, 12, None, None)] \<and>
   non_overlapping
     (top_level_records JPEGPlugin (run (example_carver [JPEGPlugin] 1000 0 False) two_jpegs))"
proof -
  have one: "count_list (plugins (example_carver [JPEGPlugin] 1000 0 False)) JPEGPlugin \<le> 1"
    by (simp add: example_carver_def)
  have "map record_summary
     (top_level_records JPEGPlugin (run (example_carver [JPEGPlugin] 1000 0 False) two_jpegs)) =
     [(''jpeg'', 0, 6, None, None), (''jpeg'', 6, 12, None, None)]"
    by code_simp
  with one plugin_listed_once_non_overlapping [OF one, of two_jpegs] show ?thesis by simp
qed

subsection \<open>Depth of the embedded scan\<close>

text \<open>
  \<^verbatim>\<open>embedded_depth\<close> is read in one place, the comparison with depth 0 in
  \<^verbatim>\<open>_scan\<close>: every value from 1 on gives the run of the value 1.
\<close>

lemma set_embedded_depth_fields:
  "scan_window (set_embedded_depth k c) p = scan_window c p"
  "max_size (opts (set_embedded_depth k c)) = max_size (opts c)"
  "fragmented (opts (set_embedded_depth k c)) = fragmented (opts c)"
  "chunk_size (opts (set_embedded_depth k c)) = chunk_size (opts c)"
  "out_dir (opts (set_embedded_depth k c)) = out_dir (opts c)"
  "plugins (set_embedded_depth k c) = plugins c"
  "embedded_depth (opts (set_embedded_depth k c)) = k"
  by (simp_all add: set_embedded_depth_def scan_window_def split: option.split)

lemma set_embedded_depth_same:
  "scan_window (set_embedded_depth k c) p = scan_window c p"
  "max_size (opts (set_embedded_depth k c)) = max_size (opts c)"
  "plugins (set_embedded_depth k c) = plugins c"
  "embedded_depth (opts (set_embedded_depth k c)) = k"
  "locate_end (set_embedded_depth k c) p buf h = locate_end c p buf h"
  "embedded_carve (set_embedded_depth k c) p data pn h e st = embedded_carve c p data pn h e st"
  "top_emitted (set_embedded_depth k c) p buf es h e uf st = top_emitted c p buf es h e uf st"
  by (simp_all add: set_embedded_depth_fields embedded_carve_state locate_end_def
      top_emitted_def top_record_def Let_def cong: if_cong)

lemma scan_embedded_plugin_ignores_depth:
  "scan_embedded_plugin (set_embedded_depth k c) p data pn off st =
   scan_embedded_plugin c p data pn off st"
proof (induction c p data pn off st rule: scan_embedded_plugin.induct)
  case (1 c p data pn off st)
  let ?c' = "set_embedded_depth k c"
  let ?L = "scan_embedded_plugin ?c' p data pn off st"
  let ?R = "scan_embedded_plugin c p data pn off st"
  show ?case
  proof (cases "py_find data (hd (headers p)) off (length data)")
    case None
    have "?L = st" by (subst scan_embedded_plugin.simps) (simp add: None)
    moreover have "?R = st" by (subst scan_embedded_plugin.simps) (simp add: None)
    ultimately show ?thesis by simp
  next
    case (Some h)
    show ?thesis
    proof (cases "find_footer p data h (scan_window c p)")
      case None
      have "?L = scan_embedded_plugin ?c' p data pn (h + 1) st"
        by (subst scan_embedded_plugin.simps) (simp add: Some None set_embedded_depth_same)
      moreover have "?R = scan_embedded_plugin c p data pn (h + 1) st"
        by (subst scan_embedded_plugin.simps) (simp add: Some None)
      ultimately show ?thesis using "1.IH"(1) [OF Some None] by simp
    next
      case e: (Some e)
      show ?thesis
      proof (cases "0 < int e - int h \<and> int e - int h \<le> int (max_size (opts c))")
        case True
        have "?L = scan_embedded_plugin ?c' p data pn e (embedded_carve c p data pn h e st)"
          by (subst scan_embedded_plugin.simps)
             (simp only: Some e option.case set_embedded_depth_same if_P [OF True])
        moreover have "?R = scan_embedded_plugin c p data pn e (embedded_carve c p data pn h e st)"
          by (subst scan_embedded_plugin.simps) (simp only: Some e option.case if_P [OF True])
        ultimately show ?thesis using "1.IH"(2) [OF Some e True] by simp
      next
        case False
        have "?L = scan_embedded_plugin ?c' p data pn (h + 1) st"
          by (subst scan_embedded_plugin.simps)
             (simp only: Some e option.case set_embedded_depth_same if_not_P [OF False])
        moreover have "?R = scan_embedded_plugin c p data pn (h + 1) st"
          by (subst scan_embedded_plugin.simps) (simp only: Some e option.case if_not_P [OF False])
        ultimately show ?thesis using "1.IH"(3) [OF Some e False] by simp
      qed
    qed
  qed
qed

lemma scan_memory_for_embedded_ignores_depth:
  "scan_memory_for_embedded (set_embedded_depth k c) parent data depth pn st =
   scan_memory_for_embedded c parent data depth' pn st"
proof -
  have "scan_memory_for_embedded_loop (set_embedded_depth k c) parent data pn ps st =
      scan_memory_for_embedded_loop c parent data pn ps st" for ps
    by (induction ps arbitrary: st) (simp_all add: scan_embedded_plugin_ignores_depth)
  then show ?thesis by (simp add: scan_memory_for_embedded_def set_embedded_depth_same)
qed

lemma top_carve_depth_one:
  assumes "1 \<le> k"
  shows "top_carve (set_embedded_depth k c) p buf es 0 h e uf st =
         top_carve (set_embedded_depth 1 c) p buf es 0 h e uf st"
  using assms
  by (simp add: top_carve_state set_embedded_depth_same
      scan_memory_for_embedded_ignores_depth [where depth' = 1])

lemma scan_plugin_depth_one:
  assumes "1 \<le> k"
  shows "scan_plugin (set_embedded_depth k c) p buf es 0 off st =
         scan_plugin (set_embedded_depth 1 c) p buf es 0 off st"
proof (induction "set_embedded_depth 1 c" p buf es "0::int" off st rule: scan_plugin.induct)
  case (1 p buf es off st)
  let ?ck = "set_embedded_depth k c" and ?c1 = "set_embedded_depth 1 c"
  let ?L = "scan_plugin ?ck p buf es 0 off st"
  let ?R = "scan_plugin ?c1 p buf es 0 off st"
  have same: "locate_end ?ck p buf h = locate_end ?c1 p buf h"
    "max_size (opts ?ck) = max_size (opts ?c1)" for h
    by (simp_all add: set_embedded_depth_same)
  show ?case
  proof (cases "off < length buf")
    case False
    have "?L = st" by (subst scan_plugin.simps) (simp only: if_not_P [OF False])
    moreover have "?R = st" by (subst scan_plugin.simps) (simp only: if_not_P [OF False])
    ultimately show ?thesis by simp
  next
    case lt: True
    show ?thesis
    proof (cases "py_find buf (hd (headers p)) off (length buf)")
      case None
      have "?L = st" by (subst scan_plugin.simps) (simp only: if_P [OF lt] None option.case)
      moreover have "?R = st" by (subst scan_plugin.simps) (simp only: if_P [OF lt] None option.case)
      ultimately show ?thesis by simp
    next
      case (Some h)
      obtain x uf where loc: "locate_end ?c1 p buf h = (x, uf)" by (cases "locate_end ?c1 p buf h")
      show ?thesis
      proof (cases x)
        case None
        have "?L = scan_plugin ?ck p buf es 0 (h + 1) st"
          by (subst scan_plugin.simps)
             (simp only: if_P [OF lt] Some option.case same loc None prod.case)
        moreover have "?R = scan_plugin ?c1 p buf es 0 (h + 1) st"
          by (subst scan_plugin.simps)
             (simp only: if_P [OF lt] Some option.case loc None prod.case)
        ultimately show ?thesis using "1.hyps"(1) [OF lt Some loc [symmetric] None] by simp
      next
        case e: (Some e)
        show ?thesis
        proof (cases "int e - int h \<le> 0 \<or> int (max_size (opts ?c1)) < int e - int h")
          case True
          have "?L = scan_plugin ?ck p buf es 0 (h + 1) st"
            by (subst scan_plugin.simps)
               (simp only: if_P [OF lt] Some option.case same loc e prod.case if_P [OF True])
          moreover have "?R = scan_plugin ?c1 p buf es 0 (h + 1) st"
            by (subst scan_plugin.simps)
               (simp only: if_P [OF lt] Some option.case loc e prod.case if_P [OF True])
          ultimately show ?thesis using "1.hyps"(2) [OF lt Some loc [symmetric] e True] by simp
        next
          case False
          have "?L = scan_plugin ?ck p buf es 0 e (top_carve ?ck p buf es 0 h e uf st)"
            by (subst scan_plugin.simps)
               (simp only: if_P [OF lt] Some option.case same loc e prod.case if_not_P [OF False])
          moreover have "?R = scan_plugin ?c1 p buf es 0 e (top_carve ?c1 p buf es 0 h e uf st)"
            by (subst scan_plugin.simps)
               (simp only: if_P [OF lt] Some option.case loc e prod.case if_not_P [OF False])
          ultimately show ?thesis
            using "1.hyps"(3) [OF lt Some loc [symmetric] e False] top_carve_depth_one [OF assms]
            by simp
        qed
      qed
    qed
  qed
qed

lemma embedded_depth_beyond_one_is_ignored:
  assumes "1 \<le> k"
  shows "run (set_embedded_depth k c) buf = run (set_embedded_depth 1 c) buf"
proof -
  have "fold (\<lambda>p. scan_plugin (set_embedded_depth k c) p buf None 0 0) ps st =
      fold (\<lambda>p. scan_plugin (set_embedded_depth 1 c) p buf None 0 0) ps st" for ps st
    by (induction ps arbitrary: st) (simp_all add: scan_plugin_depth_one [OF assms])
  then show ?thesis by (simp add: run_def scan_def set_embedded_depth_same)
qed

text \<open>
  C2. With \<^verbatim>\<open>embedded_depth = 2\<close> the embedded scan does not enter the blobs it carves.
  The image holds a PDF at 0..46 that holds a ZIP at 5..41 that holds a PDF at 4..14 of the
  ZIP; bytes after the outer PDF make the top-level ZIP candidate larger than
  \<^verbatim>\<open>max_size\<close>. The run records the outer PDF and the ZIP embedded in it, and nothing
  else, although the header, the footer locator and the validator of the PDF plugin accept
  the inner PDF inside the ZIP blob.
\<close>

theorem no_scan_of_embedded_blob:
  "embedded_depth (opts (example_carver [PDFPlugin, ZIPPlugin] 60 2 False)) = 2 \<and>
   map record_summary (records (run (example_carver [PDFPlugin, ZIPPlugin] 60 2 False) two_level_image)) =
     [(''pdf'', 0, 46, None, None),
      (''zip'', 5, 41, Some ''pdf_000000000000'', Some ''embedded'')] \<and>
   py_find (py_slice (py_slice two_level_image 0 46) 5 41) PDF_HEADER 0 36 = Some 4 \<and>
   find_footer PDFPlugin (py_slice (py_slice two_level_image 0 46) 5 41) 4 500 = Some 14 \<and>
   validate PDFPlugin (py_slice (py_slice (py_slice two_level_image 0 46) 5 41) 4 14)"
  by code_simp

subsection \<open>The embedded scan and the fragmented bridge\<close>

text \<open>
  C6, as stated, fails: with \<^verbatim>\<open>fragmented\<close> set, the carved PDF below holds a local file
  header at 5 where \<^verbatim>\<open>find_footer\<close> of the ZIP plugin fails and its bridge returns 17,
  and the embedded scan of the PDF appends nothing. The same header is carved by the bridge
  at top level.
\<close>

theorem embedded_scan_never_bridges_counterexample:
  "fragmented (opts (example_carver [PDFPlugin, ZIPPlugin] 1000 1 True)) \<and>
   map record_summary (records (run (example_carver [PDFPlugin, ZIPPlugin] 1000 1 True) locator_only)) =
     [(''pdf'', 0, 22, None, None), (''zip'', 5, 17, None, Some ''fragmented-bridge'')] \<and>
   py_find (py_slice locator_only 0 22) LFH 0 22 = Some 5 \<and>
   find_footer ZIPPlugin (py_slice locator_only 0 22) 5 500 = None \<and>
   fragmented_try_bridge ZIPPlugin (py_slice locator_only 0 22) 5 500 4096 = Some 17 \<and>
   scan_memory_for_embedded (example_carver [PDFPlugin, ZIPPlugin] 1000 1 True) PDFPlugin
     (py_slice locator_only 0 22) 1 ''pdf_000000000000'' initial_state = initial_state"
  by code_simp

text \<open>
  The embedded scan does not read \<^verbatim>\<open>options.fragmented\<close>.
\<close>

lemma set_fragmented_same:
  "scan_window (set_fragmented fr c) p = scan_window c p"
  "max_size (opts (set_fragmented fr c)) = max_size (opts c)"
  "plugins (set_fragmented fr c) = plugins c"
  "embedded_carve (set_fragmented fr c) p data pn h e st = embedded_carve c p data pn h e st"
  by (simp_all add: set_fragmented_def scan_window_def embedded_carve_state split: option.split)

lemma scan_embedded_plugin_ignores_fragmented:
  "scan_embedded_plugin (set_fragmented fr c) p data pn off st =
   scan_embedded_plugin c p data pn off st"
proof (induction c p data pn off st rule: scan_embedded_plugin.induct)
  case (1 c p data pn off st)
  let ?c' = "set_fragmented fr c"
  let ?L = "scan_embedded_plugin ?c' p data pn off st"
  let ?R = "scan_embedded_plugin c p data pn off st"
  show ?case
  proof (cases "py_find data (hd (headers p)) off (length data)")
    case None
    have "?L = st" by (subst scan_embedded_plugin.simps) (simp add: None)
    moreover have "?R = st" by (subst scan_embedded_plugin.simps) (simp add: None)
    ultimately show ?thesis by simp
  next
    case (Some h)
    show ?thesis
    proof (cases "find_footer p data h (scan_window c p)")
      case None
      have "?L = scan_embedded_plugin ?c' p data pn (h + 1) st"
        by (subst scan_embedded_plugin.simps) (simp add: Some None set_fragmented_same)
      moreover have "?R = scan_embedded_plugin c p data pn (h + 1) st"
        by (subst scan_embedded_plugin.simps) (simp add: Some None)
      ultimately show ?thesis using "1.IH"(1) [OF Some None] by simp
    next
      case e: (Some e)
      show ?thesis
      proof (cases "0 < int e - int h \<and> int e - int h \<le> int (max_size (opts c))")
        case True
        have "?L = scan_embedded_plugin ?c' p data pn e (embedded_carve c p data pn h e st)"
          by (subst scan_embedded_plugin.simps)
             (simp only: Some e option.case set_fragmented_same if_P [OF True])
        moreover have "?R = scan_embedded_plugin c p data pn e (embedded_carve c p data pn h e st)"
          by (subst scan_embedded_plugin.simps) (simp only: Some e option.case if_P [OF True])
        ultimately show ?thesis using "1.IH"(2) [OF Some e True] by simp
      next
        case False
        have "?L = scan_embedded_plugin ?c' p data pn (h + 1) st"
          by (subst scan_embedded_plugin.simps)
             (simp only: Some e option.case set_fragmented_same if_not_P [OF False])
        moreover have "?R = scan_embedded_plugin c p data pn (h + 1) st"
          by (subst scan_embedded_plugin.simps) (simp only: Some e option.case if_not_P [OF False])
        ultimately show ?thesis using "1.IH"(3) [OF Some e False] by simp
      qed
    qed
  qed
qed

lemma scan_memory_for_embedded_loop_ignores_fragmented:
  "scan_memory_for_embedded_loop (set_fragmented fr c) parent data pn ps st =
   scan_memory_for_embedded_loop c parent data pn ps st"
  by (induction ps arbitrary: st) (simp_all add: scan_embedded_plugin_ignores_fragmented)

lemma scan_memory_for_embedded_ignores_fragmented:
  "scan_memory_for_embedded (set_fragmented fr c) parent data depth pn st =
   scan_memory_for_embedded c parent data depth pn st"
  by (simp add: scan_memory_for_embedded_def scan_memory_for_embedded_loop_ignores_fragmented
      set_fragmented_same)

text \<open>
  The loop of the embedded scan and the loop of the top-level scan, run on the blob without
  the bridge, make the same carves: a record of the one is the record of the other with the
  deviations of an embedded record.
\<close>

lemma blob_carver_fields:
  "scan_window (blob_carver c parent) p = scan_window c p"
  "max_size (opts (blob_carver c parent)) = max_size (opts c)"
  "out_dir (opts (blob_carver c parent)) = out_dir (opts c)"
  "fragmented (opts (blob_carver c parent)) = False"
  "embedded_depth (opts (blob_carver c parent)) = 0"
  "plugins (blob_carver c parent) = filter (\<lambda>p. fmt p \<noteq> fmt parent) (plugins c)"
  by (simp_all add: blob_carver_def scan_window_def split: option.split)

lemma blob_carver_locate_end:
  "locate_end (blob_carver c parent) p buf h = (find_footer p buf h (scan_window c p), False)"
  by (simp add: locate_end_def blob_carver_fields Let_def)

lemma blob_carver_top_carve:
  "records (top_carve (blob_carver c parent) p buf None 0 h e False st0) =
     records st0 @ [top_record (blob_carver c parent) p buf None h e False]"
  by (simp add: top_carve_state blob_carver_fields top_emitted_def)

lemma as_embedded_top_record:
  "as_embedded c pn (top_record (blob_carver c parent) p data None h e False) =
     \<lparr> r_fmt = fmt p, r_start = h, r_end = e, r_size = int e - int h,
       r_out_path = out_dir (opts c) @ ''/carved/''
          @ (pn @ ''__'' @ fmt p @ ''_'' @ hex_padded 8 h) @ file_ext (fmt p),
       r_validated = validate p (py_slice data h e),
       r_embedded_parent = Some pn, r_notes = Some ''embedded'' \<rparr>"
  by (simp add: as_embedded_def top_record_def)

lemma carve_step_related:
  assumes "records st = pre @ map (as_embedded c pn) (records st0)"
  shows "records (embedded_carve c p data pn h e st) =
     pre @ map (as_embedded c pn)
       (records (top_carve (blob_carver c parent) p data None 0 h e False st0))"
  using assms
  by (simp add: embedded_carve_state blob_carver_top_carve as_embedded_top_record)

lemma scan_embedded_plugin_is_scan_plugin:
  assumes "records st = pre @ map (as_embedded c pn) (records st0)"
  shows "records (scan_embedded_plugin c p data pn off st) =
     pre @ map (as_embedded c pn)
       (records (scan_plugin (blob_carver c parent) p data None 0 off st0))"
  using assms
proof (induction c p data pn off st arbitrary: st0 rule: scan_embedded_plugin.induct)
  case (1 c p data pn off st)
  let ?c0 = "blob_carver c parent"
  let ?L = "scan_embedded_plugin c p data pn off st"
  let ?R = "scan_plugin ?c0 p data None 0 off st0"
  note rel = "1.prems"
  show ?case
  proof (cases "py_find data (hd (headers p)) off (length data)")
    case None
    have "?L = st" by (subst scan_embedded_plugin.simps) (simp add: None)
    moreover have "?R = st0" by (subst scan_plugin.simps) (simp add: None)
    ultimately show ?thesis using rel by simp
  next
    case (Some h)
    from py_find_header [OF Some] have lt: "off < length data" by simp
    show ?thesis
    proof (cases "find_footer p data h (scan_window c p)")
      case None
      have "?L = scan_embedded_plugin c p data pn (h + 1) st"
        by (subst scan_embedded_plugin.simps) (simp add: Some None)
      moreover have "?R = scan_plugin ?c0 p data None 0 (h + 1) st0"
        by (subst scan_plugin.simps)
           (simp only: if_P [OF lt] Some option.case blob_carver_locate_end None prod.case)
      ultimately show ?thesis using "1.IH"(1) [OF Some None rel] by simp
    next
      case e: (Some e)
      show ?thesis
      proof (cases "0 < int e - int h \<and> int e - int h \<le> int (max_size (opts c))")
        case True
        then have no_skip: "\<not> (int e - int h \<le> 0 \<or>
            int (max_size (opts ?c0)) < int e - int h)"
          by (simp add: blob_carver_fields)
        have "?L = scan_embedded_plugin c p data pn e (embedded_carve c p data pn h e st)"
          by (subst scan_embedded_plugin.simps) (simp only: Some e option.case if_P [OF True])
        moreover have "?R = scan_plugin ?c0 p data None 0 e
            (top_carve ?c0 p data None 0 h e False st0)"
          by (subst scan_plugin.simps)
             (simp only: if_P [OF lt] Some option.case blob_carver_locate_end e prod.case
                if_not_P [OF no_skip])
        ultimately show ?thesis
          using "1.IH"(2) [OF Some e True carve_step_related [OF rel]] by simp
      next
        case False
        then have skip: "int e - int h \<le> 0 \<or> int (max_size (opts ?c0)) < int e - int h"
          by (simp add: blob_carver_fields not_less not_le)
        have "?L = scan_embedded_plugin c p data pn (h + 1) st"
          by (subst scan_embedded_plugin.simps) (simp only: Some e option.case if_not_P [OF False])
        moreover have "?R = scan_plugin ?c0 p data None 0 (h + 1) st0"
          by (subst scan_plugin.simps)
             (simp only: if_P [OF lt] Some option.case blob_carver_locate_end e prod.case
                if_P [OF skip])
        ultimately show ?thesis using "1.IH"(3) [OF Some e False rel] by simp
      qed
    qed
  qed
qed

lemma scan_memory_for_embedded_loop_is_scan:
  assumes "records st = pre @ map (as_embedded c pn) (records st0)"
  shows "records (scan_memory_for_embedded_loop c parent data pn ps st) =
     pre @ map (as_embedded c pn)
       (records (fold (\<lambda>p. scan_plugin (blob_carver c parent) p data None 0 0)
          (filter (\<lambda>p. fmt p \<noteq> fmt parent) ps) st0))"
  using assms
proof (induction ps arbitrary: st st0)
  case Nil
  then show ?case by simp
next
  case (Cons q qs)
  show ?case
  proof (cases "fmt q = fmt parent")
    case True
    with Cons.IH [OF Cons.prems] show ?thesis by simp
  next
    case False
    from Cons.IH [OF scan_embedded_plugin_is_scan_plugin [OF Cons.prems, of q data 0 parent]] False
    show ?thesis by simp
  qed
qed

lemma scan_memory_for_embedded_records:
  "records (scan_memory_for_embedded c parent data depth pn st) =
     records st @ map (as_embedded c pn) (records (run (blob_carver c parent) data))"
proof -
  have "records st = records st @ map (as_embedded c pn) (records initial_state)"
    by (simp add: initial_state_def)
  from scan_memory_for_embedded_loop_is_scan [OF this, of parent data "plugins c"]
  show ?thesis
    by (simp add: scan_memory_for_embedded_def run_def scan_def blob_carver_fields)
qed

lemma filter_parent_as_embedded:
  "filter (\<lambda>r. r_embedded_parent r = Some pn) (map (as_embedded c pn) rs) =
     map (as_embedded c pn) rs"
  by (induction rs) (simp_all add: as_embedded_def)

text \<open>
  C6, amended. The embedded scan over a carved blob runs the same algorithm as the
  top-level scan apart from the listed deviations and without the fragmented bridge: the
  records it appends with the blob as their parent are exactly the records that a top-level
  scan of the blob appends for the plugins other than the format of the parent with
  \<^verbatim>\<open>fragmented\<close> off, each with the name, the parent and the note of an embedded
  record. So where \<^verbatim>\<open>find_footer\<close> fails on a header inside the blob, no record with
  the blob as parent starts there, whatever \<^verbatim>\<open>options.fragmented\<close> is.
\<close>

theorem embedded_scan_is_scan_without_bridge:
  "filter (\<lambda>r. r_embedded_parent r = Some pn)
     (drop (length (records st))
        (records (scan_memory_for_embedded c parent data depth pn st))) =
   map (as_embedded c pn) (records (run (blob_carver c parent) data))"
  by (simp add: scan_memory_for_embedded_records filter_parent_as_embedded)

text \<open>
  The embedded scan of the PDF that holds a ZIP: the top-level scan of the blob for the ZIP
  plugin records the ZIP at 5..41, and the embedded scan records it with the PDF as parent.
\<close>

theorem embedded_scan_is_scan_without_bridge_witness:
  "map record_summary (records (run
      (blob_carver (example_carver [PDFPlugin, ZIPPlugin] 1000 1 True) PDFPlugin) nested_pdf)) =
     [(''zip'', 5, 41, None, None)] \<and>
   map record_summary
     (filter (\<lambda>r. r_embedded_parent r = Some ''pdf_000000000000'')
        (drop (length (records initial_state))
           (records (scan_memory_for_embedded
              (example_carver [PDFPlugin, ZIPPlugin] 1000 1 True) PDFPlugin nested_pdf 1
              ''pdf_000000000000'' initial_state)))) =
     [(''zip'', 5, 41, Some ''pdf_000000000000'', Some ''embedded'')]"
proof -
  let ?c = "example_carver [PDFPlugin, ZIPPlugin] 1000 1 True"
  have top: "map record_summary (records (run (blob_carver ?c PDFPlugin) nested_pdf)) =
      [(''zip'', 5, 41, None, None)]"
    by code_simp
  have "map record_summary
      (map (as_embedded ?c ''pdf_000000000000'')
         (records (run (blob_carver ?c PDFPlugin) nested_pdf))) =
      [(''zip'', 5, 41, Some ''pdf_000000000000'', Some ''embedded'')]"
    by code_simp
  with top show ?thesis
    by (simp only: embedded_scan_is_scan_without_bridge
        [of "''pdf_000000000000''" initial_state ?c PDFPlugin nested_pdf 1])
qed

end
